theory Spec2Isabelle
  imports Complex_Main "HOL-Library.Log_Nat"
begin

section \<open>Unlocking helpers (src/lib/helpers/unlock.ts)\<close>

subsection \<open>Numbers\<close>

text \<open>
  A JavaScript number is an IEEE 754 binary64 value. A finite one is modelled by the
  rational it denotes; every arithmetic operation of the source is the exact operation
  followed by \<open>rnd64\<close>, the rounding to the nearest binary64 value with ties going
  to the even significand. A screen coordinate and the cell size (\<open>piece\<close>, in the
  source \<open>size.width / 3\<close>) are finite numbers; a key is a finite number or \<open>NaN\<close>
  (what \<open>parseInt\<close> returns for a string that is no number). Overflow to an infinity
  and the sign of zero are outside the model.
\<close>

text \<open>The exponent \<open>e\<close> with \<open>2^e \<le> |x| < 2^(e+1)\<close>, for \<open>x \<noteq> 0\<close>.\<close>

definition expo :: "rat \<Rightarrow> int" where
  "expo x =
     (let (a, b) = quotient_of \<bar>x\<bar>; d = bitlen a - bitlen b
      in if 2 powi d \<le> \<bar>x\<bar> then d else d - 1)"

definition round_half_even :: "rat \<Rightarrow> int" where
  "round_half_even q =
     (let n = \<lfloor>q\<rfloor>; r = q - of_int n
      in if r < 1 / 2 then n else if 1 / 2 < r then n + 1 else if even n then n else n + 1)"

text \<open>
  The spacing of binary64 values around \<open>x\<close> is \<open>2^(e - 52)\<close>, and \<open>2^(-1074)\<close> in
  the subnormal range.
\<close>

definition rnd64 :: "rat \<Rightarrow> rat" where
  "rnd64 x =
     (if x = 0 then 0
      else (let u = 2 powi (max (expo x) (- 1022) - 52)
            in of_int (round_half_even (x / u)) * u))"

text \<open>The operators \<open>+\<close>, \<open>-\<close>, \<open>*\<close> and \<open>/\<close> on finite numbers.\<close>

definition fadd :: "rat \<Rightarrow> rat \<Rightarrow> rat" where
  "fadd a b = rnd64 (a + b)"

definition fsub :: "rat \<Rightarrow> rat \<Rightarrow> rat" where
  "fsub a b = rnd64 (a - b)"

definition fmul :: "rat \<Rightarrow> rat \<Rightarrow> rat" where
  "fmul a b = rnd64 (a * b)"

definition fdiv :: "rat \<Rightarrow> rat \<Rightarrow> rat" where
  "fdiv a b = rnd64 (a / b)"

datatype number = NaN | Num rat

text \<open>
  \<open>a % b\<close>: the remainder of the division truncated towards zero, which takes the
  sign of the dividend and is exact; \<open>NaN\<close> for a \<open>NaN\<close> dividend or a zero divisor.
\<close>

definition js_rem :: "number \<Rightarrow> rat \<Rightarrow> number" where
  "js_rem a b =
     (case a of
        NaN \<Rightarrow> NaN
      | Num v \<Rightarrow>
          if b = 0 then NaN
          else Num (v - b * of_int (if v / b < 0 then \<lceil>v / b\<rceil> else \<lfloor>v / b\<rfloor>)))"

text \<open>\<open>a || b\<close> on numbers: \<open>0\<close> and \<open>NaN\<close> are falsy.\<close>

definition js_or :: "number \<Rightarrow> rat \<Rightarrow> rat" where
  "js_or a b = (case a of NaN \<Rightarrow> b | Num v \<Rightarrow> if v = 0 then b else v)"

subsection \<open>Data\<close>

text \<open>The \<open>Position\<close> of @appium/types: \<open>{x: number, y: number}\<close>, both finite.\<close>

record Position =
  pos_x :: rat
  pos_y :: rat

text \<open>
  A \<open>TouchAction\<close>: \<open>{action, options?}\<close> with
  \<open>options = {element, x, y}\<close>. The pattern gesture always sets \<open>element\<close> to
  \<open>undefined\<close> (\<open>None\<close>); \<open>release\<close> has no options.
\<close>

record TouchOptions =
  element :: "string option"
  opt_x :: rat
  opt_y :: rat

record TouchAction =
  action :: string
  options :: "TouchOptions option"

text \<open>An element of \<open>keys: string[] | number[]\<close>.\<close>

datatype key = KStr string | KNum number

datatype js_error = Error string | TypeError string

subsection \<open>getPatternKeyPosition\<close>

definition cols :: rat where
  "cols = 3"

definition pins :: rat where
  "pins = 9"

text \<open>
  \<open>Math.round\<close> is \<open>round\<close> (the nearest integer, a tie goes up) and \<open>Math.ceil\<close> is
  \<open>ceiling\<close>; both are exact. The source's expressions are
  \<open>(x + c * piece) - piece / 2\<close> and \<open>y + (r * piece - piece / 2)\<close>.
\<close>

definition xPos :: "number \<Rightarrow> rat \<Rightarrow> rat \<Rightarrow> int" where
  "xPos k x piece =
     round (fsub (fadd x (fmul (js_or (js_rem k cols) cols) piece)) (fdiv piece 2))"

definition yPos :: "number \<Rightarrow> rat \<Rightarrow> rat \<Rightarrow> int" where
  "yPos k y piece =
     round (fadd y (fsub (fmul (of_int (ceiling (fdiv (js_or (js_rem k pins) pins) cols))) piece)
                         (fdiv piece 2)))"

definition getPatternKeyPosition :: "number \<Rightarrow> Position \<Rightarrow> rat \<Rightarrow> Position" where
  "getPatternKeyPosition k initPos piece =
     \<lparr>pos_x = of_int (xPos k (pos_x initPos) piece),
      pos_y = of_int (yPos k (pos_y initPos) piece)\<rparr>"

subsection \<open>getPatternActions\<close>

text \<open>
  \<open>_.isString(key) ? _.parseInt(key) : key\<close>. lodash's \<open>parseInt\<close> is not part of
  the repository; it is a parameter of the model.
\<close>

fun coerce_key :: "(string \<Rightarrow> number) \<Rightarrow> key \<Rightarrow> number" where
  "coerce_key parseInt (KStr s) = parseInt s"
| "coerce_key parseInt (KNum n) = n"

text \<open>
  The source computes \<open>moveTo.x\<close> from \<open>diffX\<close> and \<open>moveTo.y\<close> from \<open>diffY\<close> by
  the same statements; \<open>moveTo_axis\<close> is that block, for one axis.
\<close>

definition moveTo_axis :: "rat \<Rightarrow> rat \<Rightarrow> rat" where
  "moveTo_axis diff piece =
     (if diff > 0 then
        (if \<bar>diff\<bar> > piece then fadd piece piece else piece)
      else if diff < 0 then
        (if \<bar>diff\<bar> > piece then fsub (fmul (- 1) piece) piece else fmul (- 1) piece)
      else 0)"

definition press_action :: "Position \<Rightarrow> TouchAction" where
  "press_action keyPos =
     \<lparr>action = ''press'',
      options = Some \<lparr>element = None, opt_x = pos_x keyPos, opt_y = pos_y keyPos\<rparr>\<rparr>"

definition moveTo_action :: "rat \<Rightarrow> rat \<Rightarrow> TouchAction" where
  "moveTo_action mx my =
     \<lparr>action = ''moveTo'', options = Some \<lparr>element = None, opt_x = mx, opt_y = my\<rparr>\<rparr>"

definition release_action :: TouchAction where
  "release_action = \<lparr>action = ''release'', options = None\<rparr>"

text \<open>\<open>keys[0]\<close>: \<open>undefined\<close> (\<open>None\<close>) for an empty array.\<close>

fun first_key :: "number list \<Rightarrow> number option" where
  "first_key [] = None"
| "first_key (k # _) = Some k"

text \<open>\<open>key === keys[0]\<close>: \<open>NaN\<close> is not equal to itself.\<close>

fun strict_eq :: "number \<Rightarrow> number option \<Rightarrow> bool" where
  "strict_eq (Num a) (Some (Num b)) = (a = b)"
| "strict_eq k k0 = False"

text \<open>
  The \<open>for (const key of keys)\<close> loop. \<open>lastPos\<close> is declared without a value, so it
  is \<open>None\<close> until the first \<open>press\<close>; reading \<open>lastPos!.x\<close> before that raises a
  TypeError.
\<close>

fun pattern_loop ::
  "number option \<Rightarrow> Position \<Rightarrow> rat \<Rightarrow> number list \<Rightarrow> Position option \<Rightarrow> TouchAction list
   \<Rightarrow> js_error + TouchAction list" where
  "pattern_loop key0 initPos piece [] lastPos actions = Inr actions"
| "pattern_loop key0 initPos piece (k # ks) lastPos actions =
     (let keyPos = getPatternKeyPosition k initPos piece in
      if strict_eq k key0 then
        pattern_loop key0 initPos piece ks (Some keyPos) (actions @ [press_action keyPos])
      else
        (case lastPos of
           None \<Rightarrow> Inl (TypeError ''lastPos is undefined'')
         | Some lp \<Rightarrow>
             (let mx = moveTo_axis (fsub (pos_x keyPos) (pos_x lp)) piece;
                  my = moveTo_axis (fsub (pos_y keyPos) (pos_y lp)) piece
              in pattern_loop key0 initPos piece ks (Some keyPos)
                   (actions @ [moveTo_action (fadd mx (pos_x lp)) (fadd my (pos_y lp))]))))"

definition getPatternActions ::
  "(string \<Rightarrow> number) \<Rightarrow> key list \<Rightarrow> Position \<Rightarrow> rat \<Rightarrow> js_error + TouchAction list" where
  "getPatternActions parseInt keys initPos piece =
     (let ks = map (coerce_key parseInt) keys in
      case pattern_loop (first_key ks) initPos piece ks None [] of
        Inl e \<Rightarrow> Inl e
      | Inr actions \<Rightarrow> Inr (actions @ [release_action]))"


subsection \<open>Proof-side descriptions of the gesture\<close>

text \<open>A digit as a key value.\<close>

definition digit :: "int \<Rightarrow> number" where
  "digit d = Num (of_int d)"

text \<open>
  One iteration of the loop as a function of the previous position, and the list of
  actions the loop appends once \<open>lastPos\<close> is set.
\<close>

definition step_action :: "number option \<Rightarrow> Position \<Rightarrow> rat \<Rightarrow> Position \<Rightarrow> number \<Rightarrow> TouchAction" where
  "step_action key0 initPos piece lp k =
     (let keyPos = getPatternKeyPosition k initPos piece in
      if strict_eq k key0 then press_action keyPos
      else moveTo_action
             (fadd (moveTo_axis (fsub (pos_x keyPos) (pos_x lp)) piece) (pos_x lp))
             (fadd (moveTo_axis (fsub (pos_y keyPos) (pos_y lp)) piece) (pos_y lp)))"

fun emitted :: "number option \<Rightarrow> Position \<Rightarrow> rat \<Rightarrow> Position \<Rightarrow> number list \<Rightarrow> TouchAction list" where
  "emitted key0 initPos piece lp [] = []"
| "emitted key0 initPos piece lp (k # ks) =
     step_action key0 initPos piece lp k
       # emitted key0 initPos piece (getPatternKeyPosition k initPos piece) ks"




text \<open>
  The decimal value of a string of digits, and an instance of the \<open>parseInt\<close>
  parameter for the examples: on a string of decimal digits, the number lodash's
  \<open>parseInt\<close> returns. The examples apply it to such strings only.
\<close>

definition parseInt_dec :: "string \<Rightarrow> int" where
  "parseInt_dec s = foldl (\<lambda>n c. 10 * n + (of_char c - 48)) 0 s"

definition parseInt_num :: "string \<Rightarrow> number" where
  "parseInt_num s =
     (if s \<noteq> [] \<and> list_all (\<lambda>c. c \<in> set ''0123456789'') s
      then Num (rnd64 (of_int (parseInt_dec s))) else NaN)"

subsection \<open>Strings and regular expressions\<close>

text \<open>
  A JavaScript string is modelled as a \<open>string\<close> whose characters are the code units
  U+0000 to U+00FF. In that range the class \<open>\s\<close> holds tab, line feed, vertical tab,
  form feed, carriage return, space and the no-break space U+00A0, and \<open>.\<close> matches
  every character except the line terminators line feed and carriage return.
\<close>

definition is_ws :: "char \<Rightarrow> bool" where
  "is_ws c = (of_char c \<in> set [9, 10, 11, 12, 13, 32, 160 :: nat])"

definition is_line_terminator :: "char \<Rightarrow> bool" where
  "is_line_terminator c = (of_char c \<in> set [10, 13 :: nat])"

text \<open>\<open>[0-9]\<close> and \<open>[1-9]\<close>.\<close>

definition is_digit :: "char \<Rightarrow> bool" where
  "is_digit c = (48 \<le> (of_char c :: nat) \<and> (of_char c :: nat) \<le> 57)"

definition is_digit19 :: "char \<Rightarrow> bool" where
  "is_digit19 c = (49 \<le> (of_char c :: nat) \<and> (of_char c :: nat) \<le> 57)"

text \<open>\<open>`${v}`\<close> and \<open>String(v)\<close> for a value that is a string or \<open>undefined\<close>.\<close>

fun js_String :: "string option \<Rightarrow> string" where
  "js_String None = ''undefined''"
| "js_String (Some s) = s"

text \<open>\<open>String.prototype.trim\<close>, and lodash's \<open>_.trim\<close> (\<open>''\<close> for \<open>undefined\<close>).\<close>

definition js_trim :: "string \<Rightarrow> string" where
  "js_trim s = rev (dropWhile is_ws (rev (dropWhile is_ws s)))"

fun lodash_trim :: "string option \<Rightarrow> string" where
  "lodash_trim None = []"
| "lodash_trim (Some s) = js_trim s"

text \<open>\<open>/^[0-9]+$/.test(s)\<close>\<close>

definition test_digits :: "string \<Rightarrow> bool" where
  "test_digits s = (s \<noteq> [] \<and> list_all is_digit s)"

text \<open>\<open>/^[1-9]{2,9}$/.test(s)\<close>\<close>

definition test_pattern_digits :: "string \<Rightarrow> bool" where
  "test_pattern_digits s = (2 \<le> length s \<and> length s \<le> 9 \<and> list_all is_digit19 s)"

text \<open>
  \<open>/([1-9]).*?\1/.test(s)\<close>: some digit 1..9 occurs again later, with no line
  terminator between the two occurrences.
\<close>

fun test_repeat :: "string \<Rightarrow> bool" where
  "test_repeat [] = False"
| "test_repeat (c # cs) =
     ((is_digit19 c \<and> c \<in> set (takeWhile (\<lambda>d. \<not> is_line_terminator d) cs)) \<or> test_repeat cs)"

text \<open>
  \<open>/.{4,}/g.test(s)\<close> on a fresh regular expression: somewhere in \<open>s\<close> there are
  four consecutive characters, none a line terminator. \<open>dot_run n k s\<close> scans \<open>s\<close>
  having seen \<open>k\<close> such characters in a row.
\<close>

fun dot_run :: "nat \<Rightarrow> nat \<Rightarrow> string \<Rightarrow> bool" where
  "dot_run n k [] = (n \<le> k)"
| "dot_run n k (c # cs) =
     (n \<le> k \<or> (if is_line_terminator c then dot_run n 0 cs else dot_run n (Suc k) cs))"

definition test_min4 :: "string \<Rightarrow> bool" where
  "test_min4 s = dot_run 4 0 s"

subsection \<open>validateUnlockCapabilities\<close>

definition PIN_UNLOCK :: string where "PIN_UNLOCK = ''pin''"

definition PIN_UNLOCK_KEY_EVENT :: string where "PIN_UNLOCK_KEY_EVENT = ''pinWithKeyEvent''"

definition PASSWORD_UNLOCK :: string where "PASSWORD_UNLOCK = ''password''"

definition PATTERN_UNLOCK :: string where "PATTERN_UNLOCK = ''pattern''"

definition FINGERPRINT_UNLOCK :: string where "FINGERPRINT_UNLOCK = ''fingerprint''"

definition UNLOCK_TYPES :: "string list" where
  "UNLOCK_TYPES =
     [PIN_UNLOCK, PIN_UNLOCK_KEY_EVENT, PASSWORD_UNLOCK, PATTERN_UNLOCK, FINGERPRINT_UNLOCK]"

text \<open>An array in a template literal: the elements joined by commas.\<close>

fun join_comma :: "string list \<Rightarrow> string" where
  "join_comma [] = []"
| "join_comma [s] = s"
| "join_comma (s # t # ss) = s @ '','' @ join_comma (t # ss)"

text \<open>The two capabilities the function reads; each may be \<open>undefined\<close>.\<close>

record Capabilities =
  unlockType :: "string option"
  unlockKey :: "string option"

definition isNonEmptyString :: "string option \<Rightarrow> bool" where
  "isNonEmptyString v = (case v of None \<Rightarrow> False | Some s \<Rightarrow> s \<noteq> [])"

text \<open>\<open>caps ?? {}\<close>: a missing \<open>caps\<close> has neither capability.\<close>

definition validateUnlockCapabilities :: "Capabilities option \<Rightarrow> js_error + Capabilities option" where
  "validateUnlockCapabilities caps =
     (let c = (case caps of None \<Rightarrow> \<lparr>unlockType = None, unlockKey = None\<rparr> | Some c \<Rightarrow> c);
          uKey = unlockKey c in
      if \<not> isNonEmptyString (unlockType c) then
        Inl (Error ''A non-empty unlock key value must be provided'')
      else
        (let uType = js_String (unlockType c) in
         if uType \<in> set [PIN_UNLOCK, PIN_UNLOCK_KEY_EVENT, FINGERPRINT_UNLOCK] then
           (if \<not> test_digits (lodash_trim uKey) then
              Inl (Error (''Unlock key value '' @ [CHR 0x27] @ js_String uKey @ [CHR 0x27]
                          @ '' must only consist of digits''))
            else Inr caps)
         else if uType = PATTERN_UNLOCK then
           (if \<not> test_pattern_digits (lodash_trim uKey) then
              Inl (Error (''Unlock key value '' @ [CHR 0x27] @ js_String uKey @ [CHR 0x27]
                          @ '' must only include from two to nine digits in range 1..9''))
            else if test_repeat (lodash_trim uKey) then
              Inl (Error (''Unlock key value '' @ [CHR 0x27] @ js_String uKey @ [CHR 0x27]
                          @ '' must define a valid pattern where repeats are not allowed''))
            else Inr caps)
         else if uType = PASSWORD_UNLOCK then
           (if \<not> test_min4 (js_String uKey) then
              Inl (Error (''The minimum allowed length of unlock key value '' @ [CHR 0x27]
                          @ js_String uKey @ [CHR 0x27] @ '' is 4 characters''))
            else Inr caps)
         else
           Inl (Error (''Invalid unlock type '' @ [CHR 0x27] @ uType @ [CHR 0x27] @ ''. ''
                       @ ''Only the following unlock types are supported: ''
                       @ join_comma UNLOCK_TYPES))))"

subsection \<open>encodePassword and stringKeyToArr\<close>

text \<open>\<open>s.replace(/\s/gi, '%s')\<close>: every match of the one-character pattern is replaced.\<close>

fun replace_ws :: "string \<Rightarrow> string" where
  "replace_ws [] = []"
| "replace_ws (c # cs) = (if is_ws c then ''%s'' @ replace_ws cs else c # replace_ws cs)"

definition encodePassword :: "string option \<Rightarrow> string" where
  "encodePassword k = replace_ws (js_String k)"

text \<open>
  \<open>`${key}`.trim().replace(/\s+/g, '').split(/\s*/)\<close>: after the replacement no
  whitespace is left, so the split cuts between every two characters; the empty string
  splits into the empty array.
\<close>

definition stringKeyToArr :: "string option \<Rightarrow> string list" where
  "stringKeyToArr k = map (\<lambda>c. [c]) (filter (\<lambda>c. \<not> is_ws c) (js_trim (js_String k)))"

text \<open>
  The encoding in the words of the specification: every maximal run of whitespace
  becomes one \<open>%s\<close>. The flag says that the previous character was whitespace.
\<close>

fun encode_runs :: "bool \<Rightarrow> string \<Rightarrow> string" where
  "encode_runs in_run [] = []"
| "encode_runs in_run (c # cs) =
     (if is_ws c then (if in_run then encode_runs True cs else ''%s'' @ encode_runs True cs)
      else c # encode_runs False cs)"

subsection \<open>Collaborators and effects\<close>

text \<open>
  The device-control channel (\<open>adb\<close>) and the UI layer (\<open>driver\<close>) are not part of
  the module: each of their methods is a parameter, a function of a device state
  \<open>'s\<close> that returns an error or a value, and the next state. Every \<open>await\<close> of the
  source is sequential, so a procedure of the module is a function of the device state
  that returns its completion (\<open>Inl\<close>: the exception it raises), the list of calls it
  made with the outcome of each, and the final state. \<open>logger.info\<close> and \<open>sleep\<close>
  are calls that always return.
\<close>

text \<open>An element is identified by the id that \<open>util.unwrapElement\<close> reads from it.\<close>

type_synonym element = string

datatype call =
    Log string
  | Sleep nat
  | IsScreenLocked
  | Keyevent int
  | Shell "string list"
  | GetApiLevel
  | IsLockEnabled
  | ClearLockCredential string
  | SetLockCredential string string
  | CycleWakeUp
  | DismissKeyguard
  | FindElOrEls string string bool
  | GetAttribute string element
  | Click "element option"

datatype outcome =
    Raised js_error
  | Returned
  | RetBool bool
  | RetNum int
  | RetStr string
  | RetEls "element list"
  | RetEl "element option"

type_synonym event = "call \<times> outcome"

type_synonym ('s, 'a) operation = "'s \<Rightarrow> (js_error + 'a) \<times> 's"

type_synonym ('s, 'a) io = "'s \<Rightarrow> (js_error + 'a) \<times> event list \<times> 's"

record 's ADB =
  isScreenLocked :: "('s, bool) operation"
  keyevent :: "int \<Rightarrow> ('s, unit) operation"
  shell :: "string list \<Rightarrow> ('s, unit) operation"
  getApiLevel :: "('s, int) operation"
  isLockEnabled :: "('s, bool) operation"
  clearLockCredential :: "string \<Rightarrow> ('s, unit) operation"
  setLockCredential :: "string \<Rightarrow> string \<Rightarrow> ('s, unit) operation"
  cycleWakeUp :: "('s, unit) operation"
  dismissKeyguard :: "('s, unit) operation"

text \<open>
  \<open>findElOrEls(strategy, selector, mult)\<close> returns an array of elements when
  \<open>mult\<close> is true (\<open>findEls\<close>), and one element or \<open>null\<close> when it is false
  (\<open>findEl\<close>). \<open>click\<close> receives \<open>util.unwrapElement(el)\<close>, which is \<open>undefined\<close>
  (\<open>None\<close>) when \<open>el\<close> is.
\<close>

record 's Driver =
  findEls :: "string \<Rightarrow> string \<Rightarrow> ('s, element list) operation"
  findEl :: "string \<Rightarrow> string \<Rightarrow> ('s, element option) operation"
  getAttribute :: "string \<Rightarrow> element \<Rightarrow> ('s, string) operation"
  click :: "element option \<Rightarrow> ('s, unit) operation"

definition ret :: "'a \<Rightarrow> ('s, 'a) io" where
  "ret a = (\<lambda>s. (Inr a, [], s))"

text \<open>\<open>await m; f\<close>: an exception of \<open>m\<close> ends the procedure.\<close>

definition bnd :: "('s, 'a) io \<Rightarrow> ('a \<Rightarrow> ('s, 'b) io) \<Rightarrow> ('s, 'b) io" where
  "bnd m f = (\<lambda>s. case m s of
                     (Inl e, tr, s1) \<Rightarrow> (Inl e, tr, s1)
                   | (Inr a, tr, s1) \<Rightarrow> (case f a s1 of (r, tr2, s2) \<Rightarrow> (r, tr @ tr2, s2)))"

text \<open>
  \<open>try { m } finally { fin }\<close>: \<open>fin\<close> runs after \<open>m\<close> however \<open>m\<close> completes;
  an exception of \<open>fin\<close> replaces the completion of \<open>m\<close>, otherwise the completion
  of \<open>m\<close> stands.
\<close>

definition try_finally :: "('s, 'a) io \<Rightarrow> ('s, unit) io \<Rightarrow> ('s, 'a) io" where
  "try_finally m fin = (\<lambda>s. case m s of
      (r, tr, s1) \<Rightarrow> (case fin s1 of
                         (Inl e, tr2, s2) \<Rightarrow> (Inl e, tr @ tr2, s2)
                       | (Inr u, tr2, s2) \<Rightarrow> (r, tr @ tr2, s2)))"

text \<open>A call of a collaborator's operation, recorded with its outcome.\<close>

definition invoke :: "call \<Rightarrow> ('a \<Rightarrow> outcome) \<Rightarrow> ('s, 'a) operation \<Rightarrow> ('s, 'a) io" where
  "invoke c out m = (\<lambda>s. case m s of
                            (Inl e, s1) \<Rightarrow> (Inl e, [(c, Raised e)], s1)
                          | (Inr v, s1) \<Rightarrow> (Inr v, [(c, out v)], s1))"

definition returned :: "unit \<Rightarrow> outcome" where
  "returned u = Returned"

definition effect :: "call \<Rightarrow> ('s, unit) io" where
  "effect c = (\<lambda>s. (Inr (), [(c, Returned)], s))"

subsection \<open>waitForUnlock and fastUnlock\<close>

definition KEYCODE_NUMPAD_ENTER :: int where "KEYCODE_NUMPAD_ENTER = 66"

definition UNLOCK_WAIT_TIME :: nat where "UNLOCK_WAIT_TIME = 100"

definition INPUT_KEYS_WAIT_TIME :: nat where "INPUT_KEYS_WAIT_TIME = 100"

definition NUMBER_ZERO_KEYCODE :: int where "NUMBER_ZERO_KEYCODE = 7"

definition waitForUnlock :: "'s ADB \<Rightarrow> ('s, unit) io" where
  "waitForUnlock adb =
     bnd (effect (Sleep UNLOCK_WAIT_TIME)) (\<lambda>_.
     bnd (invoke IsScreenLocked RetBool (isScreenLocked adb)) (\<lambda>locked.
       if \<not> locked then ret ()
       else
         bnd (invoke (Keyevent KEYCODE_NUMPAD_ENTER) returned (keyevent adb KEYCODE_NUMPAD_ENTER)) (\<lambda>_.
         effect (Sleep UNLOCK_WAIT_TIME))))"

record FastUnlockOptions =
  credential :: string
  credentialType :: string

definition fastUnlock :: "'s ADB \<Rightarrow> FastUnlockOptions \<Rightarrow> ('s, unit) io" where
  "fastUnlock adb opts =
     bnd (effect (Log (''Unlocking the device via ADB using '' @ credentialType opts
                       @ '' credential '' @ [CHR 0x27] @ credential opts @ [CHR 0x27]))) (\<lambda>_.
     bnd (invoke IsLockEnabled RetBool (isLockEnabled adb)) (\<lambda>wasLockEnabled.
     bnd (if wasLockEnabled then
            bnd (invoke (ClearLockCredential (credential opts)) returned
                   (clearLockCredential adb (credential opts))) (\<lambda>_.
            invoke CycleWakeUp returned (cycleWakeUp adb))
          else
            effect (Log ''No active lock has been detected. Proceeding to the keyguard dismissal''))
       (\<lambda>_.
     try_finally
       (invoke DismissKeyguard returned (dismissKeyguard adb))
       (if wasLockEnabled then
          invoke (SetLockCredential (credentialType opts) (credential opts)) returned
            (setLockCredential adb (credentialType opts) (credential opts))
        else ret ()))))"

subsection \<open>pinUnlock and pinUnlockWithKeyEvent\<close>

text \<open>
  \<open>parseInt(s, 10)\<close>: leading whitespace is skipped, a sign is read, then the longest
  prefix of decimal digits; \<open>NaN\<close> (\<open>None\<close>) when there is no digit.
\<close>

definition js_parseInt10 :: "string \<Rightarrow> int option" where
  "js_parseInt10 s =
     (let t = dropWhile is_ws s;
          neg = (case t of [] \<Rightarrow> False | c # _ \<Rightarrow> c = CHR ''-'');
          u = (case t of [] \<Rightarrow> [] | c # cs \<Rightarrow> if c = CHR ''-'' \<or> c = CHR ''+'' then cs else t);
          ds = takeWhile is_digit u
      in if ds = [] then None
         else Some ((if neg then -1 else 1) * parseInt_dec ds))"

text \<open>\<open>String(n)\<close> for an integer or \<open>NaN\<close>.\<close>

fun nat_to_string :: "nat \<Rightarrow> string" where
  "nat_to_string n =
     (if n < 10 then [char_of (48 + n)]
      else nat_to_string (n div 10) @ [char_of (48 + n mod 10)])"

definition js_number_String :: "int option \<Rightarrow> string" where
  "js_number_String v =
     (case v of
        None \<Rightarrow> ''NaN''
      | Some n \<Rightarrow> if n < 0 then ''-'' @ nat_to_string (nat (- n)) else nat_to_string (nat n))"

text \<open>\<open>String(parseInt(pin, 10) + NUMBER_ZERO_KEYCODE)\<close>\<close>

definition keycode_arg :: "string \<Rightarrow> string" where
  "keycode_arg pin =
     js_number_String (case js_parseInt10 pin of
                         None \<Rightarrow> None
                       | Some n \<Rightarrow> Some (n + NUMBER_ZERO_KEYCODE))"

fun send_keyevents :: "'s ADB \<Rightarrow> string list \<Rightarrow> ('s, unit) io" where
  "send_keyevents adb [] = ret ()"
| "send_keyevents adb (pin # ks) =
     bnd (invoke (Shell [''input'', ''keyevent'', keycode_arg pin]) returned
            (shell adb [''input'', ''keyevent'', keycode_arg pin])) (\<lambda>_.
     send_keyevents adb ks)"

definition pinUnlockWithKeyEvent :: "'s ADB \<Rightarrow> 's Driver \<Rightarrow> Capabilities \<Rightarrow> ('s, unit) io" where
  "pinUnlockWithKeyEvent adb driver capabilities =
     bnd (effect (Log (''Trying to unlock device using pin with keycode ''
                       @ js_String (unlockKey capabilities)))) (\<lambda>_.
     bnd (invoke DismissKeyguard returned (dismissKeyguard adb)) (\<lambda>_.
     bnd (send_keyevents adb (stringKeyToArr (unlockKey capabilities))) (\<lambda>_.
     waitForUnlock adb)))"

text \<open>
  \<open>for (const el of els) { pins[text] = el }\<close>: the map from displayed text to
  element (\<open>pins\<close> in the source, \<open>shown\<close> here); a later element with the same
  text replaces an earlier one.
\<close>

fun read_pins :: "'s Driver \<Rightarrow> element list \<Rightarrow> (string \<rightharpoonup> element) \<Rightarrow> ('s, string \<rightharpoonup> element) io" where
  "read_pins driver [] shown = ret shown"
| "read_pins driver (el # els) shown =
     bnd (invoke (GetAttribute ''text'' el) RetStr (getAttribute driver ''text'' el)) (\<lambda>txt.
     read_pins driver els (shown(txt \<mapsto> el)))"

text \<open>
  \<open>for (const pin of keys) { const el = pins[pin]; await driver.click(...) }\<close>:
  \<open>pins[pin]\<close> is \<open>undefined\<close> for a digit no element shows.
\<close>

fun click_pins :: "'s Driver \<Rightarrow> (string \<rightharpoonup> element) \<Rightarrow> string list \<Rightarrow> ('s, unit) io" where
  "click_pins driver shown [] = ret ()"
| "click_pins driver shown (pin # ks) =
     bnd (invoke (Click (shown pin)) returned (click driver (shown pin))) (\<lambda>_.
     click_pins driver shown ks)"

text \<open>
  The loop of the branch for API levels below 21. Its value says whether the procedure
  has returned from inside the loop (\<open>return await this.pinUnlockWithKeyEvent(...)\<close>).
\<close>

fun click_keys :: "'s ADB \<Rightarrow> 's Driver \<Rightarrow> Capabilities \<Rightarrow> string list \<Rightarrow> ('s, bool) io" where
  "click_keys adb driver capabilities [] = ret False"
| "click_keys adb driver capabilities (pin # ks) =
     bnd (invoke (FindElOrEls ''id'' (''com.android.keyguard:id/key'' @ pin) False) RetEl
            (findEl driver ''id'' (''com.android.keyguard:id/key'' @ pin))) (\<lambda>el.
       case el of
         None \<Rightarrow> bnd (pinUnlockWithKeyEvent adb driver capabilities) (\<lambda>_. ret True)
       | Some e \<Rightarrow>
           bnd (invoke (Click (Some e)) returned (click driver (Some e))) (\<lambda>_.
           click_keys adb driver capabilities ks))"

definition pinUnlock :: "'s ADB \<Rightarrow> 's Driver \<Rightarrow> Capabilities \<Rightarrow> ('s, unit) io" where
  "pinUnlock adb driver capabilities =
     bnd (effect (Log (''Trying to unlock device using pin ''
                       @ js_String (unlockKey capabilities)))) (\<lambda>_.
     bnd (invoke DismissKeyguard returned (dismissKeyguard adb)) (\<lambda>_.
     (let keys = stringKeyToArr (unlockKey capabilities) in
      bnd (invoke GetApiLevel RetNum (getApiLevel adb)) (\<lambda>apiLevel.
        if apiLevel \<ge> 21 then
          bnd (invoke (FindElOrEls ''id'' ''com.android.systemui:id/digit_text'' True) RetEls
                 (findEls driver ''id'' ''com.android.systemui:id/digit_text'')) (\<lambda>els.
            if els = [] then pinUnlockWithKeyEvent adb driver capabilities
            else
              bnd (read_pins driver els Map.empty) (\<lambda>shown.
              bnd (click_pins driver shown keys) (\<lambda>_.
              waitForUnlock adb)))
        else
          bnd (click_keys adb driver capabilities keys) (\<lambda>returned_early.
            if returned_early then ret () else waitForUnlock adb)))))"

subsection \<open>Devices for the examples\<close>

text \<open>
  A device without state on which every call returns: the lock is enabled or not, the
  API level is fixed, the screen is unlocked afterwards.
\<close>

definition adb_ok :: "bool \<Rightarrow> int \<Rightarrow> unit ADB" where
  "adb_ok lock level =
     \<lparr>isScreenLocked = (\<lambda>s. (Inr False, s)),
      keyevent = (\<lambda>code s. (Inr (), s)),
      shell = (\<lambda>argv s. (Inr (), s)),
      getApiLevel = (\<lambda>s. (Inr level, s)),
      isLockEnabled = (\<lambda>s. (Inr lock, s)),
      clearLockCredential = (\<lambda>cred s. (Inr (), s)),
      setLockCredential = (\<lambda>ty cred s. (Inr (), s)),
      cycleWakeUp = (\<lambda>s. (Inr (), s)),
      dismissKeyguard = (\<lambda>s. (Inr (), s))\<rparr>"

text \<open>The same device, on which \<open>cycleWakeUp\<close> raises.\<close>

definition adb_wakeup_fails :: "unit ADB" where
  "adb_wakeup_fails = (adb_ok True 30)\<lparr>cycleWakeUp := (\<lambda>s. (Inl (Error ''wake up failed''), s))\<rparr>"

text \<open>The same device, on which \<open>clearLockCredential\<close> raises.\<close>

definition adb_clear_fails :: "unit ADB" where
  "adb_clear_fails =
     (adb_ok True 30)\<lparr>clearLockCredential := (\<lambda>cred s. (Inl (Error ''clear failed''), s))\<rparr>"

text \<open>The same device, on which \<open>dismissKeyguard\<close> raises.\<close>

definition adb_dismiss_fails :: "unit ADB" where
  "adb_dismiss_fails = (adb_ok True 30)\<lparr>dismissKeyguard := (\<lambda>s. (Inl (Error ''dismiss failed''), s))\<rparr>"

text \<open>
  A UI layer without state: the keypad lookup returns the given elements, the text of
  an element is its id, the per-digit lookup finds the element named by the selector
  when it is among the given ones, and a click returns for an element and raises for
  \<open>undefined\<close>.
\<close>

definition driver_of :: "element list \<Rightarrow> unit Driver" where
  "driver_of els =
     \<lparr>findEls = (\<lambda>strategy selector s. (Inr els, s)),
      findEl = (\<lambda>strategy selector s.
                  (Inr (if [last selector] \<in> set els then Some [last selector] else None), s)),
      getAttribute = (\<lambda>name el s. (Inr el, s)),
      click = (\<lambda>el s. (case el of
                          None \<Rightarrow> (Inl (Error ''element is undefined''), s)
                        | Some e \<Rightarrow> (Inr (), s)))\<rparr>"

definition pin_caps :: "string \<Rightarrow> Capabilities" where
  "pin_caps k = \<lparr>unlockType = Some ''pin'', unlockKey = Some k\<rparr>"

subsection \<open>Proof-side descriptions of a run\<close>

text \<open>The two log lines of \<open>fastUnlock\<close>, as events.\<close>

definition fastUnlock_log :: "FastUnlockOptions \<Rightarrow> event" where
  "fastUnlock_log opts =
     (Log (''Unlocking the device via ADB using '' @ credentialType opts
           @ '' credential '' @ [CHR 0x27] @ credential opts @ [CHR 0x27]), Returned)"

definition no_lock_log :: event where
  "no_lock_log =
     (Log ''No active lock has been detected. Proceeding to the keyguard dismissal'', Returned)"

text \<open>The two log lines of the PIN procedures, as events.\<close>

definition pin_log :: "Capabilities \<Rightarrow> event" where
  "pin_log capabilities =
     (Log (''Trying to unlock device using pin '' @ js_String (unlockKey capabilities)), Returned)"

definition keycode_log :: "Capabilities \<Rightarrow> event" where
  "keycode_log capabilities =
     (Log (''Trying to unlock device using pin with keycode ''
           @ js_String (unlockKey capabilities)), Returned)"

fun is_lookup :: "call \<Rightarrow> bool" where
  "is_lookup (FindElOrEls strategy selector mult) = True"
| "is_lookup c = False"


fun is_raised :: "outcome \<Rightarrow> bool" where
  "is_raised (Raised e) = True"
| "is_raised out = False"

text \<open>An element lookup that returned the empty array or \<open>null\<close>.\<close>

definition lookup_absent :: "event \<Rightarrow> bool" where
  "lookup_absent ev = (is_lookup (fst ev) \<and> (snd ev = RetEls [] \<or> snd ev = RetEl None))"

text \<open>The exception of a completion, if any.\<close>

fun err_of :: "js_error + 'a \<Rightarrow> js_error option" where
  "err_of (Inl e) = Some e"
| "err_of (Inr v) = None"

text \<open>
  A run in which every exception is one raised by a collaborator and ends the run:
  no call before the last one raised, and the run raises exactly when its last call
  did, with the same error.
\<close>

definition fail_stop :: "js_error option \<Rightarrow> event list \<Rightarrow> bool" where
  "fail_stop c tr =
     (case c of
        None \<Rightarrow> list_all (\<lambda>ev. \<not> is_raised (snd ev)) tr
      | Some e \<Rightarrow> tr \<noteq> [] \<and> snd (last tr) = Raised e
                  \<and> list_all (\<lambda>ev. \<not> is_raised (snd ev)) (butlast tr))"

text \<open>A fail-stop run all of whose events satisfy \<open>E\<close>.\<close>

definition plain :: "(event \<Rightarrow> bool) \<Rightarrow> js_error option \<Rightarrow> event list \<Rightarrow> bool" where
  "plain E c tr = (fail_stop c tr \<and> list_all E tr)"

text \<open>Every run of a procedure satisfies \<open>P\<close>.\<close>

definition sat :: "(js_error option \<Rightarrow> event list \<Rightarrow> bool) \<Rightarrow> ('s, 'a) io \<Rightarrow> bool" where
  "sat P m = (\<forall>s r tr s'. m s = (r, tr, s') \<longrightarrow> P (err_of r) tr)"


text \<open>The events of a run of \<open>pinUnlock\<close> that does not fall back.\<close>

definition direct_event :: "Capabilities \<Rightarrow> event \<Rightarrow> bool" where
  "direct_event capabilities ev = (ev \<noteq> keycode_log capabilities \<and> \<not> lookup_absent ev)"



text \<open>The calls of \<open>waitForUnlock\<close> and of the keycode procedure after its log line.\<close>

fun quiet_call :: "call \<Rightarrow> bool" where
  "quiet_call (Sleep n) = True"
| "quiet_call IsScreenLocked = True"
| "quiet_call (Keyevent k) = True"
| "quiet_call (Shell argv) = True"
| "quiet_call DismissKeyguard = True"
| "quiet_call c = False"

text \<open>
  The events allowed after \<open>getApiLevel\<close> returned \<open>lvl\<close>: no second query of the
  level, and only the element lookup of that level's branch.
\<close>

definition lookup_for :: "string list \<Rightarrow> int \<Rightarrow> event \<Rightarrow> bool" where
  "lookup_for ks lvl ev =
     (fst ev \<noteq> GetApiLevel
      \<and> (if is_lookup (fst ev) then
            (if 21 \<le> lvl then
               fst ev = FindElOrEls ''id'' ''com.android.systemui:id/digit_text'' True
             else
               fst ev \<in> (\<lambda>pin. FindElOrEls ''id'' (''com.android.keyguard:id/key'' @ pin) False) ` set ks)
          else True))"

section \<open>Properties of the rounding\<close>

text \<open>
  Some values of the rounding: the numbers \<open>0.1\<close> and \<open>0.1 + 0.2\<close>, and two
  ties between neighbouring values.
\<close>

lemma rnd64_examples:
  "rnd64 (1 / 10) = 3602879701896397 / 36028797018963968"
  "fadd (rnd64 (1 / 10)) (rnd64 (2 / 10)) = 1351079888211149 / 4503599627370496"
  "rnd64 (2 ^ 53 + 1) = 2 ^ 53"
  "rnd64 (2 ^ 53 + 3) = 2 ^ 53 + 4"
  by code_simp+

lemma pow2_diff: "(2::rat) powi m / 2 powi n = 2 powi (m - n)"
  by (rule power_int_diff [symmetric]) simp

lemma pow2_cong: "m = n \<Longrightarrow> (2::rat) powi m = 2 powi n"
  by simp

lemma bitlen_rat_bounds:
  assumes "0 < a"
  shows "(2::rat) powi (bitlen a - 1) \<le> of_int a" "of_int a < (2::rat) powi bitlen a"
proof -
  from bitlen_bounds [OF assms]
  have l: "2 ^ nat (bitlen a - 1) \<le> a" and u: "a < 2 ^ nat (bitlen a)" by simp_all
  from assms have b1: "1 \<le> bitlen a" by (simp add: bitlen_alt_def)
  from l have "rat_of_int (2 ^ nat (bitlen a - 1)) \<le> of_int a" by (simp only: of_int_le_iff)
  with b1 show "(2::rat) powi (bitlen a - 1) \<le> of_int a"
    by (simp add: power_int_nonneg_exp)
  from u have "rat_of_int a < of_int (2 ^ nat (bitlen a))" by (simp only: of_int_less_iff)
  with b1 show "of_int a < (2::rat) powi bitlen a"
    by (simp add: power_int_nonneg_exp)
qed

lemma expo_bounds:
  assumes "x \<noteq> 0"
  shows "2 powi expo x \<le> \<bar>x\<bar>" "\<bar>x\<bar> < 2 powi (expo x + 1)"
proof -
  obtain a b where q: "quotient_of \<bar>x\<bar> = (a, b)" by (cases "quotient_of \<bar>x\<bar>")
  then have b: "0 < b" and x: "\<bar>x\<bar> = of_int a / of_int b"
    by (simp_all add: quotient_of_denom_pos quotient_of_div)
  from assms have "0 < \<bar>x\<bar>" by simp
  with x b have "0 < rat_of_int a" by (simp add: zero_less_divide_iff)
  then have a: "0 < a" by simp
  let ?d = "bitlen a - bitlen b"
  note A = bitlen_rat_bounds [OF a] and B = bitlen_rat_bounds [OF b]
  have pb: "0 < rat_of_int b" using b by simp
  have up: "\<bar>x\<bar> < 2 powi (?d + 1)"
  proof -
    have "\<bar>x\<bar> < 2 powi bitlen a / of_int b"
      unfolding x using A(2) pb by (simp add: divide_strict_right_mono)
    also have "\<dots> \<le> 2 powi bitlen a / 2 powi (bitlen b - 1)"
    proof (rule divide_left_mono)
      show "2 powi (bitlen b - 1) \<le> rat_of_int b" by (rule B(1))
      show "0 \<le> (2::rat) powi bitlen a" by simp
      have "0 < (2::rat) powi (bitlen b - 1)" by simp
      with pb show "0 < rat_of_int b * 2 powi (bitlen b - 1)" by (rule mult_pos_pos)
    qed
    also have "\<dots> = 2 powi (?d + 1)"
      unfolding pow2_diff by (rule pow2_cong) simp
    finally show ?thesis .
  qed
  have lo: "2 powi (?d - 1) < \<bar>x\<bar>"
  proof -
    have "2 powi (?d - 1) = 2 powi (bitlen a - 1) / (2::rat) powi bitlen b"
      unfolding pow2_diff by (rule pow2_cong) simp
    also have "\<dots> \<le> of_int a / 2 powi bitlen b"
      using A(1) by (simp add: divide_right_mono)
    also have "\<dots> < of_int a / of_int b"
      using B(2) a pb by (intro divide_strict_left_mono) simp_all
    finally show ?thesis by (simp add: x)
  qed
  have e: "expo x = (if 2 powi ?d \<le> \<bar>x\<bar> then ?d else ?d - 1)"
    by (simp add: expo_def q)
  show "2 powi expo x \<le> \<bar>x\<bar>" using lo by (simp add: e)
  show "\<bar>x\<bar> < 2 powi (expo x + 1)" using up by (simp add: e)
qed

lemma expo_less:
  assumes "x \<noteq> 0" "\<bar>x\<bar> < 2 powi m"
  shows "expo x < m"
proof -
  from expo_bounds(1) [OF assms(1)] assms(2) have lt: "(2::rat) powi expo x < 2 powi m" by simp
  show ?thesis
  proof (rule ccontr)
    assume "\<not> expo x < m"
    then have "m \<le> expo x" by simp
    then have "(2::rat) powi m \<le> 2 powi expo x" by (rule power_int_increasing) simp
    with lt show False by simp
  qed
qed

lemma round_half_even_of_int [simp]: "round_half_even (of_int n) = n"
  by (simp add: round_half_even_def)


text \<open>A number \<open>n * 2^k\<close> with fewer than 53 significant bits is a double.\<close>

lemma rnd64_exact:
  assumes x: "x = of_int n * 2 powi k" and k: "- 1074 \<le> k" and b: "\<bar>x\<bar> < 2 powi (k + 53)"
  shows "rnd64 x = x"
proof (cases "x = 0")
  case True
  then show ?thesis by (simp add: rnd64_def)
next
  case False
  let ?k0 = "max (expo x) (- 1022) - 52"
  from expo_less [OF False b] k have le: "?k0 \<le> k" by simp
  have "x / 2 powi ?k0 = of_int n * (2 powi k / 2 powi ?k0)" by (simp add: x)
  also have "2 powi k / (2::rat) powi ?k0 = 2 powi (k - ?k0)" by (rule pow2_diff)
  also have "\<dots> = of_int (2 ^ nat (k - ?k0))" using le by (simp add: power_int_nonneg_exp)
  finally have "x / 2 powi ?k0 = of_int (n * 2 ^ nat (k - ?k0))" by simp
  then have "round_half_even (x / 2 powi ?k0) = n * 2 ^ nat (k - ?k0)"
    by (simp only: round_half_even_of_int)
  then have "rnd64 x = of_int (n * 2 ^ nat (k - ?k0)) * 2 powi ?k0"
    using False by (simp add: rnd64_def Let_def)
  also have "\<dots> = of_int n * (2 powi (k - ?k0) * 2 powi ?k0)"
    using le by (simp add: power_int_nonneg_exp)
  also have "2 powi (k - ?k0) * (2::rat) powi ?k0 = 2 powi k"
    by (simp flip: power_int_add)
  finally show ?thesis by (simp add: x)
qed

lemma rnd64_of_int:
  assumes "\<bar>n\<bar> < 2 ^ 53"
  shows "rnd64 (of_int n) = of_int n"
proof (rule rnd64_exact [where n = n and k = 0])
  show "rat_of_int n = of_int n * 2 powi 0" by simp
  show "- 1074 \<le> (0::int)" by simp
  from assms have "rat_of_int \<bar>n\<bar> < of_int (2 ^ 53)" by (simp only: of_int_less_iff)
  then show "\<bar>rat_of_int n\<bar> < 2 powi (0 + 53)" by simp
qed

lemma rnd64_half_int:
  assumes "\<bar>n\<bar> < 2 ^ 53"
  shows "rnd64 (of_int n / 2) = of_int n / 2"
proof (rule rnd64_exact [where n = n and k = "- 1"])
  show "rat_of_int n / 2 = of_int n * 2 powi (- 1)" by simp
  show "- 1074 \<le> (- 1 :: int)" by simp
  from assms have "rat_of_int \<bar>n\<bar> < of_int (2 ^ 53)" by (simp only: of_int_less_iff)
  then show "\<bar>rat_of_int n / 2\<bar> < 2 powi (- 1 + 53)" by simp
qed


lemma expo_minus [simp]: "expo (- x) = expo x"
  by (simp add: expo_def)








section \<open>Properties of the pattern geometry\<close>

lemma digit_cases:
  fixes d :: int
  assumes "1 \<le> d" "d \<le> 9"
  shows "d = 1 \<or> d = 2 \<or> d = 3 \<or> d = 4 \<or> d = 5 \<or> d = 6 \<or> d = 7 \<or> d = 8 \<or> d = 9"
  using assms by arith

lemma column_values:
  "js_or (js_rem (digit 1) cols) cols = 1"
  "js_or (js_rem (digit 2) cols) cols = 2"
  "js_or (js_rem (digit 3) cols) cols = 3"
  "js_or (js_rem (digit 4) cols) cols = 1"
  "js_or (js_rem (digit 5) cols) cols = 2"
  "js_or (js_rem (digit 6) cols) cols = 3"
  "js_or (js_rem (digit 7) cols) cols = 1"
  "js_or (js_rem (digit 8) cols) cols = 2"
  "js_or (js_rem (digit 9) cols) cols = 3"
  by code_simp+

lemma pins_values:
  "js_or (js_rem (digit 1) pins) pins = 1"
  "js_or (js_rem (digit 2) pins) pins = 2"
  "js_or (js_rem (digit 3) pins) pins = 3"
  "js_or (js_rem (digit 4) pins) pins = 4"
  "js_or (js_rem (digit 5) pins) pins = 5"
  "js_or (js_rem (digit 6) pins) pins = 6"
  "js_or (js_rem (digit 7) pins) pins = 7"
  "js_or (js_rem (digit 8) pins) pins = 8"
  "js_or (js_rem (digit 9) pins) pins = 9"
  by code_simp+

lemma column_digit:
  assumes "1 \<le> d" "d \<le> 9"
  shows "js_or (js_rem (digit d) cols) cols = of_int ((d - 1) mod 3 + 1)"
  using digit_cases [OF assms] by (auto simp: column_values)

lemma pins_digit:
  assumes "1 \<le> d" "d \<le> 9"
  shows "js_or (js_rem (digit d) pins) pins = of_int d"
  using digit_cases [OF assms] by (auto simp: pins_values)

lemma row_quotients:
  "\<lceil>rnd64 (1 / 3)\<rceil> = 1" "\<lceil>rnd64 (2 / 3)\<rceil> = 1" "\<lceil>rnd64 (4 / 3)\<rceil> = 2"
  "\<lceil>rnd64 (5 / 3)\<rceil> = 2" "\<lceil>rnd64 (7 / 3)\<rceil> = 3" "\<lceil>rnd64 (8 / 3)\<rceil> = 3"
  "rnd64 1 = 1" "rnd64 2 = 2" "rnd64 3 = 3"
  by code_simp+

lemma row_exact:
  "\<lceil>1 / (3::rat)\<rceil> = 1" "\<lceil>2 / (3::rat)\<rceil> = 1" "\<lceil>4 / (3::rat)\<rceil> = 2"
  "\<lceil>5 / (3::rat)\<rceil> = 2" "\<lceil>7 / (3::rat)\<rceil> = 3" "\<lceil>8 / (3::rat)\<rceil> = 3"
  by code_simp+

lemma row_digit:
  assumes "1 \<le> d" "d \<le> 9"
  shows "\<lceil>fdiv (js_or (js_rem (digit d) pins) pins) cols\<rceil> = \<lceil>rat_of_int d / 3\<rceil>"
  unfolding pins_digit [OF assms]
  using digit_cases [OF assms]
  by (auto simp: fdiv_def cols_def row_quotients row_exact)

lemma row_range:
  assumes "1 \<le> d" "d \<le> 9"
  shows "1 \<le> \<lceil>rat_of_int d / 3\<rceil>" "\<lceil>rat_of_int d / 3\<rceil> \<le> 3"
  using digit_cases [OF assms] by (auto simp: row_exact)

lemma column_range:
  fixes d :: int
  shows "1 \<le> (d - 1) mod 3 + 1" "(d - 1) mod 3 + 1 \<le> 3"
  by simp_all

subsection \<open>The loop in closed form\<close>

lemma pattern_loop_Some:
  "pattern_loop key0 initPos piece ks (Some lp) acc
     = Inr (acc @ emitted key0 initPos piece lp ks)"
  by (induction ks arbitrary: lp acc) (simp_all add: step_action_def Let_def)

lemma emitted_length: "length (emitted key0 initPos piece lp ks) = length ks"
  by (induction ks arbitrary: lp) simp_all

lemma emitted_nth:
  "i < length ks \<Longrightarrow>
   emitted key0 initPos piece lp ks ! i =
     step_action key0 initPos piece
       (if i = 0 then lp else getPatternKeyPosition (ks ! (i - 1)) initPos piece) (ks ! i)"
proof (induction ks arbitrary: lp i)
  case Nil
  then show ?case by simp
next
  case (Cons k ks)
  show ?case
  proof (cases i)
    case 0
    then show ?thesis by simp
  next
    case (Suc j)
    with Cons.prems have "j < length ks" by simp
    from Cons.IH [OF this] Suc show ?thesis
      by (cases j) simp_all
  qed
qed

text \<open>A first key that is a number equals itself, so the first iteration presses.\<close>

lemma getPatternActions_Cons:
  assumes "map (coerce_key parseInt) keys = Num a # rest"
  shows "getPatternActions parseInt keys initPos piece =
     Inr (press_action (getPatternKeyPosition (Num a) initPos piece)
          # emitted (Some (Num a)) initPos piece (getPatternKeyPosition (Num a) initPos piece) rest
          @ [release_action])"
  using assms by (simp add: getPatternActions_def Let_def pattern_loop_Some)

lemma getPatternActions_total:
  assumes "map (coerce_key parseInt) keys = vs" "vs \<noteq> []" "vs ! 0 = Num a"
  shows "\<exists>acts. getPatternActions parseInt keys initPos piece = Inr acts
     \<and> length acts = length vs + 1 \<and> last acts = release_action"
proof -
  from assms obtain rest where vs: "vs = Num a # rest" by (cases vs) auto
  with assms have "map (coerce_key parseInt) keys = Num a # rest" by simp
  from getPatternActions_Cons [OF this] vs show ?thesis
    by (simp add: emitted_length)
qed

lemma getPatternActions_nth:
  assumes vs: "map (coerce_key parseInt) keys = vs"
    and i: "0 < i" "i < length vs"
    and res: "getPatternActions parseInt keys initPos piece = Inr acts"
    and a: "vs ! 0 = Num a"
  shows "acts ! i =
     step_action (Some (vs ! 0)) initPos piece
       (getPatternKeyPosition (vs ! (i - 1)) initPos piece) (vs ! i)"
proof -
  from i a obtain rest where vs': "vs = Num a # rest" by (cases vs) auto
  from i vs' obtain j where j: "i = Suc j" "j < length rest" by (cases i) auto
  from vs vs' have "map (coerce_key parseInt) keys = Num a # rest" by simp
  from getPatternActions_Cons [OF this, of initPos piece] res
  have acts: "acts = press_action (getPatternKeyPosition (Num a) initPos piece)
          # emitted (Some (Num a)) initPos piece (getPatternKeyPosition (Num a) initPos piece) rest
          @ [release_action]" by simp
  have "acts ! i = emitted (Some (Num a)) initPos piece (getPatternKeyPosition (Num a) initPos piece) rest ! j"
    using j acts by (simp add: nth_append emitted_length)
  also have "\<dots> = step_action (Some (Num a)) initPos piece
       (if j = 0 then getPatternKeyPosition (Num a) initPos piece
        else getPatternKeyPosition (rest ! (j - 1)) initPos piece) (rest ! j)"
    using j by (simp add: emitted_nth)
  also have "\<dots> = step_action (Some (vs ! 0)) initPos piece
       (getPatternKeyPosition (vs ! (i - 1)) initPos piece) (vs ! i)"
    using j vs' by (cases j) simp_all
  finally show ?thesis .
qed

lemma getPatternActions_hd:
  assumes vs: "map (coerce_key parseInt) keys = vs" and "vs \<noteq> []"
    and res: "getPatternActions parseInt keys initPos piece = Inr acts"
    and a: "vs ! 0 = Num a"
  shows "acts ! 0 = press_action (getPatternKeyPosition (vs ! 0) initPos piece)"
proof -
  from assms obtain rest where vs': "vs = Num a # rest" by (cases vs) auto
  from vs vs' have "map (coerce_key parseInt) keys = Num a # rest" by simp
  from getPatternActions_Cons [OF this, of initPos piece] res vs'
  show ?thesis by auto
qed

lemma step_action_press:
  "strict_eq k k0 \<Longrightarrow> step_action k0 initPos piece lp k
     = press_action (getPatternKeyPosition k initPos piece)"
  by (simp add: step_action_def)

lemma step_action_moveTo:
  "\<not> strict_eq k k0 \<Longrightarrow> step_action k0 initPos piece lp k
     = moveTo_action
         (fadd (moveTo_axis (fsub (pos_x (getPatternKeyPosition k initPos piece)) (pos_x lp)) piece)
               (pos_x lp))
         (fadd (moveTo_axis (fsub (pos_y (getPatternKeyPosition k initPos piece)) (pos_y lp)) piece)
               (pos_y lp))"
  by (simp add: step_action_def Let_def)

lemma strict_eq_digit: "strict_eq (digit a) (Some (digit b)) = (a = b)"
  by (simp add: digit_def)

lemma two_presses:
  assumes "0 < i" "i < length acts" "P (acts ! 0)" "P (acts ! i)"
  shows "1 < length (filter P acts)"
proof -
  from assms obtain a rest where acts: "acts = a # rest" by (cases acts) auto
  from assms acts obtain j where j: "i = Suc j" "j < length rest" by (cases i) auto
  with assms acts have "rest ! j \<in> set rest" "P (rest ! j)" by simp_all
  then have "filter P rest \<noteq> []" by (auto simp: filter_empty_conv)
  then have "0 < length (filter P rest)" by simp
  with assms acts show ?thesis by simp
qed

lemma parseInt_num_digit:
  "parseInt_num ''1'' = digit 1" "parseInt_num ''2'' = digit 2" "parseInt_num ''3'' = digit 3"
  "parseInt_num ''5'' = digit 5" "parseInt_num ''9'' = digit 9"
  by code_simp+

subsection \<open>The positions of the table\<close>

text \<open>
  C3. The literal positions of the specification's table are not what the function
  returns: none of the five holds.
\<close>

theorem keyPosition_table_counterexample:
  "getPatternKeyPosition (digit 5) \<lparr>pos_x = 0, pos_y = 0\<rparr> 30 \<noteq> \<lparr>pos_x = 15, pos_y = 15\<rparr>
   \<and> getPatternKeyPosition (digit 1) \<lparr>pos_x = 0, pos_y = 0\<rparr> 30 \<noteq> \<lparr>pos_x = -15, pos_y = -15\<rparr>
   \<and> getPatternKeyPosition (digit 1) \<lparr>pos_x = 100, pos_y = 100\<rparr> 30 \<noteq> \<lparr>pos_x = 85, pos_y = 85\<rparr>
   \<and> getPatternKeyPosition (digit 9) \<lparr>pos_x = 100, pos_y = 100\<rparr> 30 \<noteq> \<lparr>pos_x = 145, pos_y = 145\<rparr>
   \<and> getPatternKeyPosition (digit 5) \<lparr>pos_x = 100, pos_y = 100\<rparr> 30 \<noteq> \<lparr>pos_x = 115, pos_y = 115\<rparr>"
  by code_simp

text \<open>
  C3, amended. The positions the function returns at the table's inputs follow the
  formula of C1: origin (0,0), cell 30: digit 5 at (45,45), digit 1 at (15,15);
  origin (100,100), cell 30: digit 1 at (115,115), digit 9 at (175,175), digit 5 at
  (145,145).
\<close>

theorem keyPosition_table:
  "getPatternKeyPosition (digit 5) \<lparr>pos_x = 0, pos_y = 0\<rparr> 30 = \<lparr>pos_x = 45, pos_y = 45\<rparr>
   \<and> getPatternKeyPosition (digit 1) \<lparr>pos_x = 0, pos_y = 0\<rparr> 30 = \<lparr>pos_x = 15, pos_y = 15\<rparr>
   \<and> getPatternKeyPosition (digit 1) \<lparr>pos_x = 100, pos_y = 100\<rparr> 30 = \<lparr>pos_x = 115, pos_y = 115\<rparr>
   \<and> getPatternKeyPosition (digit 9) \<lparr>pos_x = 100, pos_y = 100\<rparr> 30 = \<lparr>pos_x = 175, pos_y = 175\<rparr>
   \<and> getPatternKeyPosition (digit 5) \<lparr>pos_x = 100, pos_y = 100\<rparr> 30 = \<lparr>pos_x = 145, pos_y = 145\<rparr>"
  by code_simp

subsection \<open>The shape of the gesture\<close>

text \<open>
  C6. For N distinct digits in 1..9, N at least 2, \<open>getPatternActions\<close> returns
  N + 1 actions: the first is a press, the last is a release, and the N - 1 between
  them are moveTo actions.
\<close>

theorem getPatternActions_shape:
  assumes ds: "map (coerce_key parseInt) keys = map digit ds"
    and dist: "distinct ds" and rng: "set ds \<subseteq> {1..9}" and len: "2 \<le> length ds"
  shows "\<exists>acts. getPatternActions parseInt keys initPos piece = Inr acts
           \<and> length acts = length ds + 1
           \<and> action (acts ! 0) = ''press''
           \<and> action (last acts) = ''release''
           \<and> (\<forall>i. 0 < i \<and> i < length ds \<longrightarrow> action (acts ! i) = ''moveTo'')"
proof -
  from len have ne: "map digit ds \<noteq> []" by auto
  from len have pos: "0 < length ds" by (cases ds) auto
  then have d0: "map digit ds ! 0 = Num (of_int (ds ! 0))" by (simp add: digit_def)
  from getPatternActions_total [OF ds ne d0, of initPos piece]
  obtain acts where res: "getPatternActions parseInt keys initPos piece = Inr acts"
    and n: "length acts = length (map digit ds) + 1" and l: "last acts = release_action"
    by blast
  have "action (acts ! 0) = ''press''"
    using getPatternActions_hd [OF ds ne res d0] by (simp add: press_action_def)
  moreover have "action (acts ! i) = ''moveTo''" if i: "0 < i" "i < length ds" for i
  proof -
    from nth_eq_iff_index_eq [OF dist, of i 0] i pos have "ds ! i \<noteq> ds ! 0"
      by auto
    with i pos have "\<not> strict_eq (map digit ds ! i) (Some (map digit ds ! 0))"
      by (simp add: strict_eq_digit)
    moreover from i have "i < length (map digit ds)" by simp
    ultimately show ?thesis
      using getPatternActions_nth [OF ds i(1) _ res d0]
      by (simp add: step_action_moveTo moveTo_action_def)
  qed
  moreover have "length acts = length ds + 1" using n by simp
  moreover have "action (last acts) = ''release''" using l by (simp add: release_action_def)
  ultimately show ?thesis using res by blast
qed

text \<open>The pattern 1, 5, 9, as strings, on a grid at (100,100) with cell size 30.\<close>

theorem getPatternActions_shape_witness:
  "distinct [1, 5, 9 :: int] \<and> set [1, 5, 9 :: int] \<subseteq> {1..9} \<and> 2 \<le> length [1, 5, 9 :: int]
   \<and> (\<exists>acts. getPatternActions parseInt_num [KStr ''1'', KStr ''5'', KStr ''9'']
                 \<lparr>pos_x = 100, pos_y = 100\<rparr> 30 = Inr acts
         \<and> length acts = 4
         \<and> action (acts ! 0) = ''press''
         \<and> action (last acts) = ''release''
         \<and> action (acts ! 1) = ''moveTo'' \<and> action (acts ! 2) = ''moveTo'')"
proof -
  have ds: "map (coerce_key parseInt_num) [KStr ''1'', KStr ''5'', KStr ''9''] = map digit [1, 5, 9]"
    by (simp add: parseInt_num_digit)
  have h: "distinct [1, 5, 9 :: int]" "set [1, 5, 9 :: int] \<subseteq> {1..9}" "2 \<le> length [1, 5, 9 :: int]"
    by simp_all
  from getPatternActions_shape [OF ds h, of "\<lparr>pos_x = 100, pos_y = 100\<rparr>" 30]
  obtain acts where "getPatternActions parseInt_num [KStr ''1'', KStr ''5'', KStr ''9'']
                 \<lparr>pos_x = 100, pos_y = 100\<rparr> 30 = Inr acts"
      "length acts = 4" "action (acts ! 0) = ''press''" "action (last acts) = ''release''"
      "\<forall>i. 0 < i \<and> i < 3 \<longrightarrow> action (acts ! i) = ''moveTo''"
    by auto
  then show ?thesis using h by auto
qed

text \<open>
  C10. When a later element of the coerced sequence equals the first one, the loop's
  test \<open>key === keys[0]\<close> holds there, and the action at that index is a press, not
  a moveTo: the result has more than one press, still N + 1 actions, release last.
\<close>

theorem getPatternActions_repeated_first:
  assumes vs: "map (coerce_key parseInt) keys = vs"
    and i: "0 < i" "i < length vs" and rep: "strict_eq (vs ! i) (Some (vs ! 0))"
  shows "\<exists>acts. getPatternActions parseInt keys initPos piece = Inr acts
           \<and> length acts = length vs + 1
           \<and> last acts = release_action
           \<and> acts ! 0 = press_action (getPatternKeyPosition (vs ! 0) initPos piece)
           \<and> acts ! i = press_action (getPatternKeyPosition (vs ! i) initPos piece)
           \<and> action (acts ! i) \<noteq> ''moveTo''
           \<and> 1 < length (filter (\<lambda>a. action a = ''press'') acts)"
proof -
  from rep obtain a where a: "vs ! 0 = Num a"
    by (cases "vs ! i"; cases "vs ! 0") simp_all
  from i have ne: "vs \<noteq> []" by auto
  from getPatternActions_total [OF vs ne a, of initPos piece]
  obtain acts where res: "getPatternActions parseInt keys initPos piece = Inr acts"
    and n': "length acts = length vs + 1" and l: "last acts = release_action"
    by blast
  have a0: "acts ! 0 = press_action (getPatternKeyPosition (vs ! 0) initPos piece)"
    by (rule getPatternActions_hd [OF vs ne res a])
  have ai: "acts ! i = press_action (getPatternKeyPosition (vs ! i) initPos piece)"
    using getPatternActions_nth [OF vs i res a] rep by (simp add: step_action_press)
  have "1 < length (filter (\<lambda>a. action a = ''press'') acts)"
  proof (rule two_presses [of i])
    show "0 < i" by fact
    show "i < length acts" using i n' by simp
    show "action (acts ! 0) = ''press''" using a0 by (simp add: press_action_def)
    show "action (acts ! i) = ''press''" using ai by (simp add: press_action_def)
  qed
  moreover have "action (acts ! i) \<noteq> ''moveTo''" using ai by (simp add: press_action_def)
  ultimately show ?thesis using res n' l a0 ai by blast
qed

text \<open>The keys 1, 2, 1: the third action is a press again.\<close>

theorem getPatternActions_repeated_first_witness:
  "(0::nat) < 2 \<and> (2::nat) < length [digit 1, digit 2, digit 1]
   \<and> strict_eq ([digit 1, digit 2, digit 1] ! 2) (Some ([digit 1, digit 2, digit 1] ! 0))
   \<and> (\<exists>acts. getPatternActions parseInt_num [KStr ''1'', KStr ''2'', KStr ''1'']
                 \<lparr>pos_x = 0, pos_y = 0\<rparr> 30 = Inr acts
         \<and> length acts = 4
         \<and> last acts = release_action
         \<and> acts ! 0 = press_action \<lparr>pos_x = 15, pos_y = 15\<rparr>
         \<and> acts ! 2 = press_action \<lparr>pos_x = 15, pos_y = 15\<rparr>
         \<and> 1 < length (filter (\<lambda>a. action a = ''press'') acts))"
proof -
  have vs: "map (coerce_key parseInt_num) [KStr ''1'', KStr ''2'', KStr ''1'']
              = [digit 1, digit 2, digit 1]"
    by (simp add: parseInt_num_digit)
  have h: "(0::nat) < 2" "(2::nat) < length [digit 1, digit 2, digit 1]"
    "strict_eq ([digit 1, digit 2, digit 1] ! 2) (Some ([digit 1, digit 2, digit 1] ! 0))"
    by (simp_all add: strict_eq_digit)
  have kp: "getPatternKeyPosition (digit 1) \<lparr>pos_x = 0, pos_y = 0\<rparr> 30 = \<lparr>pos_x = 15, pos_y = 15\<rparr>"
    by code_simp
  from getPatternActions_repeated_first [OF vs h, of "\<lparr>pos_x = 0, pos_y = 0\<rparr>" 30]
  obtain acts where "getPatternActions parseInt_num [KStr ''1'', KStr ''2'', KStr ''1'']
                 \<lparr>pos_x = 0, pos_y = 0\<rparr> 30 = Inr acts"
      "length acts = 4" "last acts = release_action"
      "acts ! 0 = press_action \<lparr>pos_x = 15, pos_y = 15\<rparr>"
      "acts ! 2 = press_action \<lparr>pos_x = 15, pos_y = 15\<rparr>"
      "1 < length (filter (\<lambda>a. action a = ''press'') acts)"
    by (auto simp: kp)
  then show ?thesis using h by blast
qed

subsection \<open>Key positions on an integer grid\<close>


lemma fsub_half:
  assumes "\<bar>2 * a - c\<bar> < 2 ^ 53"
  shows "fsub (of_int a) (of_int c / 2) = of_int a - of_int c / 2"
proof -
  have e: "rat_of_int a - of_int c / 2 = of_int (2 * a - c) / 2" by (simp add: field_simps)
  show ?thesis unfolding fsub_def e by (rule rnd64_half_int [OF assms])
qed

lemma fadd_half:
  assumes "\<bar>2 * a + b\<bar> < 2 ^ 53"
  shows "fadd (of_int a) (of_int b / 2) = of_int a + of_int b / 2"
proof -
  have e: "rat_of_int a + of_int b / 2 = of_int (2 * a + b) / 2" by (simp add: field_simps)
  show ?thesis unfolding fadd_def e by (rule rnd64_half_int [OF assms])
qed

lemma cell_product:
  fixes k c :: int
  assumes "1 \<le> k" "k \<le> 3" "0 < c" "c \<le> 2 ^ 40"
  shows "0 < k * c" "k * c \<le> 3 * 2 ^ 40"
proof -
  from assms show "0 < k * c" by simp
  from assms have "k * c \<le> 3 * c" by (simp add: mult_right_mono)
  also from assms have "3 * c \<le> 3 * 2 ^ 40" by simp
  finally show "k * c \<le> 3 * 2 ^ 40" .
qed

lemma cell_bounds:
  fixes a p c :: int
  assumes "\<bar>a\<bar> \<le> 2 ^ 40" "0 < p" "p \<le> 3 * 2 ^ 40" "0 < c" "c \<le> 2 ^ 40"
  shows "\<bar>p\<bar> < 2 ^ 53" "\<bar>a + p\<bar> < 2 ^ 53" "\<bar>2 * (a + p) - c\<bar> < 2 ^ 53"
    "\<bar>2 * p - c\<bar> < 2 ^ 53" "\<bar>2 * a + (2 * p - c)\<bar> < 2 ^ 53" "\<bar>c\<bar> < 2 ^ 53"
  using assms by simp_all

lemma xPos_int:
  assumes d: "1 \<le> d" "d \<le> 9" and x: "\<bar>x0\<bar> \<le> 2 ^ 40" and c: "0 < c" "c \<le> 2 ^ 40"
  shows "xPos (digit d) (of_int x0) (of_int c)
           = round (rat_of_int x0 + of_int ((d - 1) mod 3 + 1) * of_int c - of_int c / 2)"
proof -
  let ?k = "(d - 1) mod 3 + 1"
  note kc = cell_product [OF column_range [of d] c]
  note b = cell_bounds [OF x kc c]
  have m: "fmul (of_int ?k) (of_int c) = of_int (?k * c)"
    unfolding fmul_def using rnd64_of_int [OF b(1)] by simp
  have a: "fadd (of_int x0) (of_int (?k * c)) = of_int (x0 + ?k * c)"
    unfolding fadd_def using rnd64_of_int [OF b(2)] by simp
  have h: "fdiv (of_int c) 2 = of_int c / 2"
    unfolding fdiv_def by (rule rnd64_half_int [OF b(6)])
  have s: "fsub (of_int (x0 + ?k * c)) (of_int c / 2) = of_int (x0 + ?k * c) - of_int c / 2"
    by (rule fsub_half [OF b(3)])
  show ?thesis
    unfolding xPos_def column_digit [OF d] m a h s by simp
qed

lemma yPos_int:
  assumes d: "1 \<le> d" "d \<le> 9" and y: "\<bar>y0\<bar> \<le> 2 ^ 40" and c: "0 < c" "c \<le> 2 ^ 40"
  shows "yPos (digit d) (of_int y0) (of_int c)
           = round (rat_of_int y0 + of_int \<lceil>rat_of_int d / 3\<rceil> * of_int c - of_int c / 2)"
proof -
  let ?r = "\<lceil>rat_of_int d / 3\<rceil>"
  note rc = cell_product [OF row_range [OF d] c]
  note b = cell_bounds [OF y rc c]
  have m: "fmul (of_int ?r) (of_int c) = of_int (?r * c)"
    unfolding fmul_def using rnd64_of_int [OF b(1)] by simp
  have h: "fdiv (of_int c) 2 = of_int c / 2"
    unfolding fdiv_def by (rule rnd64_half_int [OF b(6)])
  have e: "rat_of_int (?r * c) - of_int c / 2 = of_int (2 * (?r * c) - c) / 2"
    by (simp add: field_simps)
  have s: "fsub (of_int (?r * c)) (of_int c / 2) = of_int (2 * (?r * c) - c) / 2"
    unfolding fsub_def e by (rule rnd64_half_int [OF b(4)])
  have a: "fadd (of_int y0) (of_int (2 * (?r * c) - c) / 2)
             = of_int y0 + of_int (2 * (?r * c) - c) / 2"
    by (rule fadd_half [OF b(5)])
  show ?thesis
    unfolding yPos_def row_digit [OF d] m h s a by (simp add: field_simps)
qed


text \<open>
  C1 as stated fails: the source evaluates the formula in binary64 arithmetic, every
  operation rounded, \<open>x\<close> as \<open>(x + column * cellSize) - cellSize / 2\<close> and \<open>y\<close> as
  \<open>y + (row * cellSize - cellSize / 2)\<close>. For a view 701 pixels wide the cell size is
  the binary64 number \<open>701 / 3\<close>; digit 5 at origin (100,600) is then placed at
  (450,951), where the formula gives (450,950) at that cell size (and (451,951) at the
  rational 701/3). With an integer cell size the origin must not be too large: at origin
  (2^53, 0) and cell size 1 digit 1 is placed at x = 2^53, the formula gives 2^53 + 1.
\<close>

theorem getPatternKeyPosition_formula_counterexample:
  "fdiv 701 3 = 8221414944757077 / 35184372088832
   \<and> getPatternKeyPosition (digit 5) \<lparr>pos_x = 100, pos_y = 600\<rparr> (fdiv 701 3)
       = \<lparr>pos_x = 450, pos_y = 951\<rparr>
   \<and> round (100 + of_int ((5 - 1) mod 3 + 1) * fdiv 701 3 - fdiv 701 3 / 2) = (450 :: int)
   \<and> round (600 + of_int \<lceil>5 / (3::rat)\<rceil> * fdiv 701 3 - fdiv 701 3 / 2) = (950 :: int)
   \<and> round (100 + of_int ((5 - 1) mod 3 + 1) * (701 / 3) - (701 / 3) / (2::rat)) = (451 :: int)
   \<and> round (600 + of_int \<lceil>5 / (3::rat)\<rceil> * (701 / 3) - (701 / 3) / (2::rat)) = (951 :: int)
   \<and> getPatternKeyPosition (digit 1) \<lparr>pos_x = 2 ^ 53, pos_y = 0\<rparr> 1
       = \<lparr>pos_x = 2 ^ 53, pos_y = 1\<rparr>
   \<and> round (2 ^ 53 + of_int ((1 - 1) mod 3 + 1) * 1 - 1 / (2::rat)) = (2 ^ 53 + 1 :: int)"
  by code_simp

text \<open>
  C1, amended. For a digit \<open>d\<close> in 1..9 the source's \<open>key % cols || cols\<close> is the
  column \<open>((d - 1) mod 3) + 1\<close> and its \<open>Math.ceil((key % pins || pins) / cols)\<close> is the
  row \<open>ceil (d / 3)\<close>; and for an integer origin and a positive integer cell size, all
  of magnitude at most 2^40, \<open>getPatternKeyPosition\<close> returns
  \<open>x = round (origin.x + column * cellSize - cellSize / 2)\<close> and
  \<open>y = round (origin.y + row * cellSize - cellSize / 2)\<close>.
\<close>

theorem getPatternKeyPosition_formula:
  assumes "1 \<le> d" "d \<le> 9"
  shows "js_or (js_rem (digit d) cols) cols = of_int ((d - 1) mod 3 + 1)
         \<and> \<lceil>fdiv (js_or (js_rem (digit d) pins) pins) cols\<rceil> = \<lceil>rat_of_int d / 3\<rceil>
         \<and> (\<forall>x0 y0 c. \<bar>x0\<bar> \<le> 2 ^ 40 \<and> \<bar>y0\<bar> \<le> 2 ^ 40 \<and> 0 < c \<and> c \<le> 2 ^ 40 \<longrightarrow>
               getPatternKeyPosition (digit d) \<lparr>pos_x = of_int x0, pos_y = of_int y0\<rparr> (of_int c) =
                 \<lparr>pos_x = of_int (round (rat_of_int x0 + of_int ((d - 1) mod 3 + 1) * of_int c
                                          - of_int c / 2)),
                  pos_y = of_int (round (rat_of_int y0 + of_int \<lceil>rat_of_int d / 3\<rceil> * of_int c
                                          - of_int c / 2))\<rparr>)"
proof (intro conjI allI impI)
  show "js_or (js_rem (digit d) cols) cols = of_int ((d - 1) mod 3 + 1)"
    by (rule column_digit [OF assms])
  show "\<lceil>fdiv (js_or (js_rem (digit d) pins) pins) cols\<rceil> = \<lceil>rat_of_int d / 3\<rceil>"
    by (rule row_digit [OF assms])
next
  fix x0 y0 c :: int
  assume b: "\<bar>x0\<bar> \<le> 2 ^ 40 \<and> \<bar>y0\<bar> \<le> 2 ^ 40 \<and> 0 < c \<and> c \<le> 2 ^ 40"
  then have x: "\<bar>x0\<bar> \<le> 2 ^ 40" and y: "\<bar>y0\<bar> \<le> 2 ^ 40" and c: "0 < c" "c \<le> 2 ^ 40"
    by simp_all
  show "getPatternKeyPosition (digit d) \<lparr>pos_x = of_int x0, pos_y = of_int y0\<rparr> (of_int c) =
          \<lparr>pos_x = of_int (round (rat_of_int x0 + of_int ((d - 1) mod 3 + 1) * of_int c
                                   - of_int c / 2)),
           pos_y = of_int (round (rat_of_int y0 + of_int \<lceil>rat_of_int d / 3\<rceil> * of_int c
                                   - of_int c / 2))\<rparr>"
    unfolding getPatternKeyPosition_def
    by (simp only: Position.simps xPos_int [OF assms x c] yPos_int [OF assms y c])
qed

text \<open>Digit 8 at origin (100,100) with cell size 30: column 2, row 3.\<close>

theorem getPatternKeyPosition_formula_witness:
  "(1::int) \<le> 8 \<and> (8::int) \<le> 9
   \<and> \<bar>100 :: int\<bar> \<le> 2 ^ 40 \<and> (0::int) < 30 \<and> (30::int) \<le> 2 ^ 40
   \<and> js_or (js_rem (digit 8) cols) cols = 2
   \<and> \<lceil>fdiv (js_or (js_rem (digit 8) pins) pins) cols\<rceil> = 3
   \<and> getPatternKeyPosition (digit 8) \<lparr>pos_x = 100, pos_y = 100\<rparr> 30 = \<lparr>pos_x = 145, pos_y = 175\<rparr>"
proof -
  have row: "\<lceil>8 / (3::rat)\<rceil> = 3" by code_simp
  have h: "(1::int) \<le> 8" "(8::int) \<le> 9" by simp_all
  have b: "\<bar>100 :: int\<bar> \<le> 2 ^ 40 \<and> \<bar>100 :: int\<bar> \<le> 2 ^ 40 \<and> (0::int) < 30 \<and> (30::int) \<le> 2 ^ 40"
    by simp
  note inst = getPatternKeyPosition_formula [OF h]
  from inst have "js_or (js_rem (digit 8) cols) cols = 2"
    and "\<lceil>fdiv (js_or (js_rem (digit 8) pins) pins) cols\<rceil> = 3"
    by (simp_all add: row)
  moreover from inst have "\<forall>x0 y0 c. \<bar>x0\<bar> \<le> 2 ^ 40 \<and> \<bar>y0\<bar> \<le> 2 ^ 40 \<and> 0 < c \<and> c \<le> 2 ^ 40 \<longrightarrow>
               getPatternKeyPosition (digit 8) \<lparr>pos_x = of_int x0, pos_y = of_int y0\<rparr> (of_int c) =
                 \<lparr>pos_x = of_int (round (rat_of_int x0 + of_int ((8 - 1) mod 3 + 1) * of_int c
                                          - of_int c / 2)),
                  pos_y = of_int (round (rat_of_int y0 + of_int \<lceil>rat_of_int 8 / 3\<rceil> * of_int c
                                          - of_int c / 2))\<rparr>"
    by blast
  from this [rule_format, of 100 100 30, OF b]
  have "getPatternKeyPosition (digit 8) \<lparr>pos_x = 100, pos_y = 100\<rparr> 30 = \<lparr>pos_x = 145, pos_y = 175\<rparr>"
    by (simp add: row)
  ultimately show ?thesis using h b by simp
qed

subsection \<open>The offset of a move\<close>

















section \<open>Properties of the password encoding and of the validator\<close>

lemma replace_ws_concat:
  "replace_ws s = concat (map (\<lambda>c. if is_ws c then ''%s'' else [c]) s)"
  by (induction s) simp_all

lemma replace_ws_length: "length (replace_ws s) = length s + length (filter is_ws s)"
  by (induction s) simp_all

text \<open>
  C4 as stated fails: a run of two spaces yields two \<open>%s\<close>, while the encoding by
  runs yields one.
\<close>

theorem encodePassword_runs_counterexample:
  "encodePassword (Some ''a  b'') = ''a%s%sb''
   \<and> encode_runs False ''a  b'' = ''a%sb''
   \<and> encodePassword (Some ''a  b'') \<noteq> encode_runs False ''a  b''"
  by (simp add: encodePassword_def is_ws_def)

text \<open>
  C4, amended. \<open>encodePassword\<close> replaces every whitespace character, one by one, with
  the two characters \<open>%s\<close> and leaves every other character unchanged; the result is
  longer than the key by the number of whitespace characters.
\<close>

theorem encodePassword_per_character:
  "encodePassword (Some k) = concat (map (\<lambda>c. if is_ws c then ''%s'' else [c]) k)
   \<and> length (encodePassword (Some k)) = length k + length (filter is_ws k)"
  by (simp add: encodePassword_def replace_ws_concat [symmetric] replace_ws_length)

lemma dot_run_bound: "dot_run n k s \<Longrightarrow> n \<le> k + length s"
  by (induction s arbitrary: k) (fastforce split: if_splits)+

lemma dot_run_no_terminator:
  "list_all (\<lambda>c. \<not> is_line_terminator c) s \<Longrightarrow> dot_run n k s = (n \<le> k + length s)"
  by (induction s arbitrary: k) auto

lemma password_short_rejected:
  "length k \<le> 3 \<Longrightarrow>
   validateUnlockCapabilities (Some \<lparr>unlockType = Some ''password'', unlockKey = Some k\<rparr>)
     = Inl (Error (''The minimum allowed length of unlock key value '' @ [CHR 0x27]
                   @ k @ [CHR 0x27] @ '' is 4 characters''))"
proof -
  assume "length k \<le> 3"
  with dot_run_bound [of 4 0 k] have "\<not> dot_run 4 0 k" by auto
  then show ?thesis
  by (simp add: validateUnlockCapabilities_def isNonEmptyString_def test_min4_def Let_def
      PIN_UNLOCK_def PIN_UNLOCK_KEY_EVENT_def FINGERPRINT_UNLOCK_def PATTERN_UNLOCK_def
      PASSWORD_UNLOCK_def)
qed

lemma password_without_line_terminator:
  "list_all (\<lambda>c. \<not> is_line_terminator c) k \<Longrightarrow>
   (validateUnlockCapabilities (Some \<lparr>unlockType = Some ''password'', unlockKey = Some k\<rparr>)
     = Inr (Some \<lparr>unlockType = Some ''password'', unlockKey = Some k\<rparr>)) = (4 \<le> length k)"
  using dot_run_no_terminator [of k 4 0]
  by (auto simp: validateUnlockCapabilities_def isNonEmptyString_def test_min4_def Let_def
      PIN_UNLOCK_def PIN_UNLOCK_KEY_EVENT_def FINGERPRINT_UNLOCK_def PATTERN_UNLOCK_def
      PASSWORD_UNLOCK_def)

text \<open>
  C5. The claim (a password key is accepted exactly when it has at least 4
  characters) is what the error message of the source says, but the test
  \<open>/.{4,}/\<close> does not count across a line terminator: the key \<open>ab\ncd\<close> has 5
  characters and is rejected with the message that the minimum length is 4.
\<close>

theorem password_line_terminator_rejected:
  "length [CHR ''a'', CHR ''b'', CHR 0x0A, CHR ''c'', CHR ''d''] = 5
   \<and> validateUnlockCapabilities
        (Some \<lparr>unlockType = Some ''password'',
               unlockKey = Some [CHR ''a'', CHR ''b'', CHR 0x0A, CHR ''c'', CHR ''d'']\<rparr>)
      = Inl (Error (''The minimum allowed length of unlock key value '' @ [CHR 0x27]
                    @ [CHR ''a'', CHR ''b'', CHR 0x0A, CHR ''c'', CHR ''d''] @ [CHR 0x27]
                    @ '' is 4 characters''))"
  by (simp add: validateUnlockCapabilities_def isNonEmptyString_def test_min4_def
      is_line_terminator_def
      PIN_UNLOCK_def PIN_UNLOCK_KEY_EVENT_def FINGERPRINT_UNLOCK_def PATTERN_UNLOCK_def
      PASSWORD_UNLOCK_def)

section \<open>Properties of fastUnlock\<close>

lemma invoke_cases:
  assumes "invoke c out m s = (r, tr, s')"
  obtains (raised) e where "m s = (Inl e, s')" "r = Inl e" "tr = [(c, Raised e)]"
        | (returned) v where "m s = (Inr v, s')" "r = Inr v" "tr = [(c, out v)]"
  using assms by (auto simp: invoke_def split: prod.splits sum.splits)

lemma bnd_cases:
  assumes "bnd m f s = (r, tr, s')"
  obtains (stop) e where "m s = (Inl e, tr, s')" "r = Inl e"
        | (continue) a tr1 s1 tr2 where "m s = (Inr a, tr1, s1)" "f a s1 = (r, tr2, s')"
            "tr = tr1 @ tr2"
  using assms by (auto simp: bnd_def split: prod.splits sum.splits)

lemma try_finally_cases:
  assumes "try_finally m fin s = (r, tr, s')"
  obtains (fin_raised) r1 tr1 s1 e tr2 where "m s = (r1, tr1, s1)" "fin s1 = (Inl e, tr2, s')"
            "r = Inl e" "tr = tr1 @ tr2"
        | (fin_returned) tr1 s1 tr2 where "m s = (r, tr1, s1)" "fin s1 = (Inr (), tr2, s')"
            "tr = tr1 @ tr2"
  using assms by (auto simp: try_finally_def split: prod.splits sum.splits)

lemma effect_eq: "effect c s = (r, tr, s') \<longleftrightarrow> r = Inr () \<and> tr = [(c, Returned)] \<and> s' = s"
  by (auto simp: effect_def)

lemma ret_eq: "ret a s = (r, tr, s') \<longleftrightarrow> r = Inr a \<and> tr = [] \<and> s' = s"
  by (auto simp: ret_def)

lemma fastUnlock_runs:
  assumes run: "fastUnlock adb opts s = (r, tr, s')"
  shows "(\<exists>e. r = Inl e \<and> tr = [fastUnlock_log opts, (IsLockEnabled, Raised e)])
       \<or> (\<exists>od. tr = [fastUnlock_log opts, (IsLockEnabled, RetBool False), no_lock_log,
                     (DismissKeyguard, od)]
              \<and> (od = Returned \<and> r = Inr () \<or> (\<exists>e. od = Raised e \<and> r = Inl e)))
       \<or> (\<exists>e. r = Inl e \<and> tr = [fastUnlock_log opts, (IsLockEnabled, RetBool True),
                     (ClearLockCredential (credential opts), Raised e)])
       \<or> (\<exists>e. r = Inl e \<and> tr = [fastUnlock_log opts, (IsLockEnabled, RetBool True),
                     (ClearLockCredential (credential opts), Returned),
                     (CycleWakeUp, Raised e)])
       \<or> (\<exists>od os. tr = [fastUnlock_log opts, (IsLockEnabled, RetBool True),
                     (ClearLockCredential (credential opts), Returned),
                     (CycleWakeUp, Returned), (DismissKeyguard, od),
                     (SetLockCredential (credentialType opts) (credential opts), os)]
              \<and> ((\<exists>e'. os = Raised e' \<and> r = Inl e')
                  \<or> (os = Returned \<and> od = Returned \<and> r = Inr ())
                  \<or> (\<exists>e. os = Returned \<and> od = Raised e \<and> r = Inl e)))"
  using run unfolding fastUnlock_def fastUnlock_log_def no_lock_log_def
  by (auto elim!: bnd_cases try_finally_cases invoke_cases
           simp: effect_eq ret_eq returned_def split: if_splits)

text \<open>
  C7 as stated fails: \<open>clearLockCredential\<close> and \<open>cycleWakeUp\<close> are awaited before
  the \<open>try\<close> block. On a device where the lock is enabled and one of the two raises,
  \<open>fastUnlock\<close> raises that error and \<open>setLockCredential\<close> is never called.
\<close>

theorem fastUnlock_restore_counterexample:
  "fastUnlock adb_clear_fails \<lparr>credential = ''1234'', credentialType = ''pin''\<rparr> ()
     = (Inl (Error ''clear failed''),
        [fastUnlock_log \<lparr>credential = ''1234'', credentialType = ''pin''\<rparr>,
         (IsLockEnabled, RetBool True),
         (ClearLockCredential ''1234'', Raised (Error ''clear failed''))], ())
   \<and> SetLockCredential ''pin'' ''1234''
       \<notin> fst ` set [fastUnlock_log \<lparr>credential = ''1234'', credentialType = ''pin''\<rparr>,
                      (IsLockEnabled, RetBool True),
                      (ClearLockCredential ''1234'', Raised (Error ''clear failed''))]
   \<and> fastUnlock adb_wakeup_fails \<lparr>credential = ''1234'', credentialType = ''pin''\<rparr> ()
     = (Inl (Error ''wake up failed''),
        [fastUnlock_log \<lparr>credential = ''1234'', credentialType = ''pin''\<rparr>,
         (IsLockEnabled, RetBool True),
         (ClearLockCredential ''1234'', Returned),
         (CycleWakeUp, Raised (Error ''wake up failed''))], ())
   \<and> SetLockCredential ''pin'' ''1234''
       \<notin> fst ` set [fastUnlock_log \<lparr>credential = ''1234'', credentialType = ''pin''\<rparr>,
                      (IsLockEnabled, RetBool True),
                      (ClearLockCredential ''1234'', Returned),
                      (CycleWakeUp, Raised (Error ''wake up failed''))]"
  by (simp add: fastUnlock_def fastUnlock_log_def adb_clear_fails_def adb_wakeup_fails_def
      adb_ok_def bnd_def invoke_def effect_def try_finally_def ret_def returned_def)

text \<open>
  C7, amended. When \<open>isLockEnabled\<close> returned true and \<open>clearLockCredential\<close> and
  \<open>cycleWakeUp\<close> returned, \<open>dismissKeyguard\<close> is called and
  \<open>setLockCredential(credentialType, credential)\<close> is called right after it, once,
  whether the dismissal returned or raised; when the dismissal raised and the
  restoration returned, \<open>fastUnlock\<close> raises the dismissal's error. When
  \<open>isLockEnabled\<close> returned false, neither \<open>clearLockCredential\<close> nor
  \<open>setLockCredential\<close> is called.
\<close>

theorem fastUnlock_restores_credential:
  assumes run: "fastUnlock adb opts s = (r, tr, s')"
  shows "((IsLockEnabled, RetBool True) \<in> set tr
            \<and> (ClearLockCredential (credential opts), Returned) \<in> set tr
            \<and> (CycleWakeUp, Returned) \<in> set tr
          \<longrightarrow> (\<exists>pre od os.
                 tr = pre @ [(DismissKeyguard, od),
                             (SetLockCredential (credentialType opts) (credential opts), os)]
                 \<and> SetLockCredential (credentialType opts) (credential opts) \<notin> fst ` set pre
                 \<and> (\<forall>e. od = Raised e \<and> os = Returned \<longrightarrow> r = Inl e)))
       \<and> ((IsLockEnabled, RetBool False) \<in> set tr
          \<longrightarrow> (\<forall>cred. ClearLockCredential cred \<notin> fst ` set tr)
              \<and> (\<forall>ty cred. SetLockCredential ty cred \<notin> fst ` set tr))"
proof (intro conjI impI)
  assume h: "(IsLockEnabled, RetBool True) \<in> set tr
            \<and> (ClearLockCredential (credential opts), Returned) \<in> set tr
            \<and> (CycleWakeUp, Returned) \<in> set tr"
  from fastUnlock_runs [OF run] h
  obtain od os where tr: "tr = [fastUnlock_log opts, (IsLockEnabled, RetBool True),
                     (ClearLockCredential (credential opts), Returned),
                     (CycleWakeUp, Returned), (DismissKeyguard, od),
                     (SetLockCredential (credentialType opts) (credential opts), os)]"
    and r: "(\<exists>e'. os = Raised e' \<and> r = Inl e')
                  \<or> (os = Returned \<and> od = Returned \<and> r = Inr ())
                  \<or> (\<exists>e. os = Returned \<and> od = Raised e \<and> r = Inl e)"
    by (auto simp: fastUnlock_log_def no_lock_log_def)
  let ?pre = "[fastUnlock_log opts, (IsLockEnabled, RetBool True),
               (ClearLockCredential (credential opts), Returned), (CycleWakeUp, Returned)]"
  have "tr = ?pre @ [(DismissKeyguard, od),
                     (SetLockCredential (credentialType opts) (credential opts), os)]"
    using tr by simp
  moreover have "SetLockCredential (credentialType opts) (credential opts) \<notin> fst ` set ?pre"
    by (simp add: fastUnlock_log_def)
  moreover have "\<forall>e. od = Raised e \<and> os = Returned \<longrightarrow> r = Inl e"
    using r by auto
  ultimately show "\<exists>pre od os.
                 tr = pre @ [(DismissKeyguard, od),
                             (SetLockCredential (credentialType opts) (credential opts), os)]
                 \<and> SetLockCredential (credentialType opts) (credential opts) \<notin> fst ` set pre
                 \<and> (\<forall>e. od = Raised e \<and> os = Returned \<longrightarrow> r = Inl e)"
    by blast
next
  assume h: "(IsLockEnabled, RetBool False) \<in> set tr"
  from fastUnlock_runs [OF run] h
  obtain od where tr: "tr = [fastUnlock_log opts, (IsLockEnabled, RetBool False), no_lock_log,
                     (DismissKeyguard, od)]"
    by (auto simp: fastUnlock_log_def no_lock_log_def)
  show "\<forall>cred. ClearLockCredential cred \<notin> fst ` set tr"
    by (simp add: tr fastUnlock_log_def no_lock_log_def)
  show "\<forall>ty cred. SetLockCredential ty cred \<notin> fst ` set tr"
    by (simp add: tr fastUnlock_log_def no_lock_log_def)
qed

text \<open>A device on which the dismissal raises, and a device without a lock.\<close>

theorem fastUnlock_restores_credential_witness:
  "(\<exists>tr. fastUnlock adb_dismiss_fails \<lparr>credential = ''1234'', credentialType = ''pin''\<rparr> ()
           = (Inl (Error ''dismiss failed''), tr, ())
        \<and> (IsLockEnabled, RetBool True) \<in> set tr
        \<and> (ClearLockCredential ''1234'', Returned) \<in> set tr
        \<and> (CycleWakeUp, Returned) \<in> set tr
        \<and> (\<exists>pre. tr = pre @ [(DismissKeyguard, Raised (Error ''dismiss failed'')),
                              (SetLockCredential ''pin'' ''1234'', Returned)]
                 \<and> SetLockCredential ''pin'' ''1234'' \<notin> fst ` set pre))
   \<and> (\<exists>tr. fastUnlock (adb_ok False 30) \<lparr>credential = ''1234'', credentialType = ''pin''\<rparr> ()
           = (Inr (), tr, ())
        \<and> (IsLockEnabled, RetBool False) \<in> set tr
        \<and> ClearLockCredential ''1234'' \<notin> fst ` set tr
        \<and> SetLockCredential ''pin'' ''1234'' \<notin> fst ` set tr)"
proof -
  let ?opts = "\<lparr>credential = ''1234'', credentialType = ''pin''\<rparr>"
  let ?tr1 = "[fastUnlock_log ?opts, (IsLockEnabled, RetBool True),
               (ClearLockCredential ''1234'', Returned), (CycleWakeUp, Returned),
               (DismissKeyguard, Raised (Error ''dismiss failed'')),
               (SetLockCredential ''pin'' ''1234'', Returned)]"
  let ?tr2 = "[fastUnlock_log ?opts, (IsLockEnabled, RetBool False), no_lock_log,
               (DismissKeyguard, Returned)]"
  have run1: "fastUnlock adb_dismiss_fails ?opts () = (Inl (Error ''dismiss failed''), ?tr1, ())"
    by (simp add: fastUnlock_def fastUnlock_log_def adb_dismiss_fails_def adb_ok_def
        bnd_def invoke_def effect_def try_finally_def ret_def returned_def)
  have run2: "fastUnlock (adb_ok False 30) ?opts () = (Inr (), ?tr2, ())"
    by (simp add: fastUnlock_def fastUnlock_log_def no_lock_log_def adb_ok_def
        bnd_def invoke_def effect_def try_finally_def ret_def returned_def)
  have h1: "(IsLockEnabled, RetBool True) \<in> set ?tr1
        \<and> (ClearLockCredential ''1234'', Returned) \<in> set ?tr1
        \<and> (CycleWakeUp, Returned) \<in> set ?tr1"
    by simp
  have h2: "(IsLockEnabled, RetBool False) \<in> set ?tr2" by simp
  from fastUnlock_restores_credential [OF run1] h1
  obtain pre od os where p: "?tr1 = pre @ [(DismissKeyguard, od), (SetLockCredential ''pin'' ''1234'', os)]"
    "SetLockCredential ''pin'' ''1234'' \<notin> fst ` set pre"
    by auto
  from p(1) have "butlast (butlast ?tr1) = pre" "last (butlast ?tr1) = (DismissKeyguard, od)"
    "last ?tr1 = (SetLockCredential ''pin'' ''1234'', os)"
    by (simp_all add: butlast_append)
  then have "od = Raised (Error ''dismiss failed'')" "os = Returned" by simp_all
  with p have e1: "\<exists>pre. ?tr1 = pre @ [(DismissKeyguard, Raised (Error ''dismiss failed'')),
                              (SetLockCredential ''pin'' ''1234'', Returned)]
                 \<and> SetLockCredential ''pin'' ''1234'' \<notin> fst ` set pre"
    by blast
  from fastUnlock_restores_credential [OF run2] h2
  have e2: "ClearLockCredential ''1234'' \<notin> fst ` set ?tr2
        \<and> SetLockCredential ''pin'' ''1234'' \<notin> fst ` set ?tr2"
    by blast
  from run1 h1 e1 run2 h2 e2 show ?thesis by blast
qed

section \<open>Properties of pinUnlock\<close>

subsection \<open>Fail-stop runs\<close>

lemma satD: "sat P m \<Longrightarrow> m s = (r, tr, s') \<Longrightarrow> P (err_of r) tr"
  unfolding sat_def by blast

lemma satI: "(\<And>s r tr s'. m s = (r, tr, s') \<Longrightarrow> P (err_of r) tr) \<Longrightarrow> sat P m"
  unfolding sat_def by blast

lemma fail_stop_None: "fail_stop None tr = list_all (\<lambda>ev. \<not> is_raised (snd ev)) tr"
  by (simp add: fail_stop_def)

lemma fail_stop_append:
  assumes "list_all (\<lambda>ev. \<not> is_raised (snd ev)) tr1" "fail_stop c tr2"
  shows "fail_stop c (tr1 @ tr2)"
proof (cases c)
  case None
  with assms show ?thesis by (simp add: fail_stop_def)
next
  case (Some e)
  with assms have "tr2 \<noteq> []" by (simp add: fail_stop_def)
  with assms Some show ?thesis by (simp add: fail_stop_def butlast_append)
qed

lemma fail_stop_raised:
  assumes "fail_stop c tr" "(cl, Raised e) \<in> set tr"
  shows "c = Some e"
proof (cases c)
  case None
  with assms(1) have "\<forall>ev\<in>set tr. \<not> is_raised (snd ev)"
    by (simp add: fail_stop_def list_all_iff)
  from bspec [OF this assms(2)] show ?thesis by simp
next
  case (Some e')
  with assms have ne: "tr \<noteq> []" and l: "snd (last tr) = Raised e'"
    and b: "list_all (\<lambda>ev. \<not> is_raised (snd ev)) (butlast tr)"
    by (simp_all add: fail_stop_def)
  from ne have "set tr = insert (last tr) (set (butlast tr))"
    by (metis append_butlast_last_id list.simps(15) rotate1.simps(2) set_rotate1)
  with assms(2) have "(cl, Raised e) = last tr \<or> (cl, Raised e) \<in> set (butlast tr)" by simp
  moreover have "(cl, Raised e) \<notin> set (butlast tr)"
  proof
    assume "(cl, Raised e) \<in> set (butlast tr)"
    from b have "\<forall>ev\<in>set (butlast tr). \<not> is_raised (snd ev)"
      by (simp add: list_all_iff)
    from bspec [OF this \<open>(cl, Raised e) \<in> set (butlast tr)\<close>] show False by simp
  qed
  ultimately have "last tr = (cl, Raised e)" by simp
  with l have "e' = e" by simp
  with Some show ?thesis by simp
qed

lemma plain_append:
  assumes "plain E None tr1" "plain E c tr2"
  shows "plain E c (tr1 @ tr2)"
  using assms by (simp add: plain_def fail_stop_None fail_stop_append)

lemma plain_ret: "sat (plain E) (ret a)"
  by (rule satI) (simp add: ret_def plain_def fail_stop_def)

lemma plain_effect: "E (c, Returned) \<Longrightarrow> sat (plain E) (effect c)"
  by (rule satI) (auto simp: effect_def plain_def fail_stop_def)

lemma plain_invoke:
  assumes "\<And>e. E (c, Raised e)" "\<And>v. E (c, out v)" "\<And>v. \<not> is_raised (out v)"
  shows "sat (plain E) (invoke c out m)"
proof (rule satI)
  fix s r tr s'
  assume "invoke c out m s = (r, tr, s')"
  then show "plain E (err_of r) tr"
    by (cases rule: invoke_cases) (simp_all add: plain_def fail_stop_def assms)
qed

lemma plain_bnd:
  assumes m: "sat (plain E) m" and f: "\<And>a. sat (plain E) (f a)"
  shows "sat (plain E) (bnd m f)"
proof (rule satI)
  fix s r tr s'
  assume "bnd m f s = (r, tr, s')"
  then show "plain E (err_of r) tr"
  proof (cases rule: bnd_cases)
    case (stop e)
    from satD [OF m stop(1)] stop(2) show ?thesis by simp
  next
    case (continue a tr1 s1 tr2)
    from satD [OF m continue(1)] have "plain E None tr1" by simp
    moreover from satD [OF f continue(2)] have "plain E (err_of r) tr2" .
    ultimately show ?thesis
      unfolding continue(3) by (rule plain_append)
  qed
qed

lemma waitForUnlock_plain:
  assumes E: "\<And>ev. quiet_call (fst ev) \<Longrightarrow> E ev"
  shows "sat (plain E) (waitForUnlock adb)"
proof -
  have k: "sat (plain E)
             (bnd (invoke (Keyevent KEYCODE_NUMPAD_ENTER) returned
                     (keyevent adb KEYCODE_NUMPAD_ENTER))
                  (\<lambda>_. effect (Sleep UNLOCK_WAIT_TIME)))"
    by (intro plain_bnd plain_invoke plain_effect E) (simp_all add: returned_def)
  show ?thesis
    unfolding waitForUnlock_def
    by (intro plain_bnd plain_effect plain_invoke E) (simp_all add: k plain_ret)
qed

lemma send_keyevents_plain:
  assumes E: "\<And>ev. quiet_call (fst ev) \<Longrightarrow> E ev"
  shows "sat (plain E) (send_keyevents adb ks)"
proof (induction ks)
  case Nil
  show ?case by (simp add: plain_ret)
next
  case (Cons pin ks)
  show ?case
    unfolding send_keyevents.simps
    by (intro plain_bnd plain_invoke E Cons.IH) (simp_all add: returned_def)
qed


lemma direct_event_quiet: "quiet_call (fst ev) \<Longrightarrow> direct_event capabilities ev"
  by (cases ev, cases "fst ev") (auto simp: direct_event_def keycode_log_def lookup_absent_def)

lemma bnd_effect:
  "bnd (effect c) f s = (r, tr, s') \<longleftrightarrow> (\<exists>t. f () s = (r, t, s') \<and> tr = (c, Returned) # t)"
  by (auto simp: bnd_def effect_def split: prod.splits)


lemma read_pins_plain:
  assumes E: "\<And>el out. E (GetAttribute ''text'' el, out)"
  shows "sat (plain E) (read_pins driver els shown)"
proof (induction els arbitrary: shown)
  case Nil
  show ?case by (simp add: plain_ret)
next
  case (Cons el els)
  show ?case
    unfolding read_pins.simps
    by (intro plain_bnd plain_invoke E Cons.IH) simp
qed

lemma click_pins_plain:
  assumes E: "\<And>el out. E (Click el, out)"
  shows "sat (plain E) (click_pins driver shown ks)"
proof (induction ks)
  case Nil
  show ?case by (simp add: plain_ret)
next
  case (Cons pin ks)
  show ?case
    unfolding click_pins.simps
    by (intro plain_bnd plain_invoke E Cons.IH) (simp add: returned_def)
qed

lemma direct_event_GetAttribute: "direct_event capabilities (GetAttribute name el, out)"
  by (simp add: direct_event_def keycode_log_def lookup_absent_def)

lemma direct_event_Click: "direct_event capabilities (Click el, out)"
  by (simp add: direct_event_def keycode_log_def lookup_absent_def)

subsection \<open>Runs that fall back\<close>

lemma pin_log_neq_keycode_log: "pin_log capabilities \<noteq> keycode_log capabilities"
proof
  let ?k = "js_String (unlockKey capabilities)"
  assume "pin_log capabilities = keycode_log capabilities"
  then have "''Trying to unlock device using pin '' @ ?k
              = ''Trying to unlock device using pin '' @ (''with keycode '' @ ?k)"
    by (simp add: pin_log_def keycode_log_def)
  then have "?k = ''with keycode '' @ ?k" by (simp only: same_append_eq)
  then have "length ?k = length (''with keycode '' @ ?k)" by (rule arg_cong)
  then show False by simp
qed














subsection \<open>The lookups of each API level\<close>

lemma lookup_for_quiet: "quiet_call (fst ev) \<Longrightarrow> lookup_for ks lvl ev"
  by (cases ev, cases "fst ev") (auto simp: lookup_for_def)

lemma pinUnlockWithKeyEvent_lookup_for:
  "sat (plain (lookup_for ks lvl)) (pinUnlockWithKeyEvent adb driver capabilities)"
  unfolding pinUnlockWithKeyEvent_def
  by (intro plain_bnd plain_effect plain_invoke send_keyevents_plain [OF lookup_for_quiet]
        waitForUnlock_plain [OF lookup_for_quiet])
     (simp_all add: returned_def lookup_for_def)

lemma click_keys_lookup_for:
  assumes "set ks \<subseteq> set keys" "lvl < 21"
  shows "sat (plain (lookup_for keys lvl)) (click_keys adb driver capabilities ks)"
  using assms(1)
proof (induction ks)
  case Nil
  show ?case by (simp add: plain_ret)
next
  case (Cons pin ks)
  then have pin: "pin \<in> set keys" and ks: "set ks \<subseteq> set keys" by simp_all
  have find: "lookup_for keys lvl (FindElOrEls ''id'' (''com.android.keyguard:id/key'' @ pin) False, out)"
    for out
    using pin assms(2) by (simp add: lookup_for_def)
  have body: "sat (plain (lookup_for keys lvl))
     (case el of
        None \<Rightarrow> bnd (pinUnlockWithKeyEvent adb driver capabilities) (\<lambda>_. ret True)
      | Some e \<Rightarrow> bnd (invoke (Click (Some e)) returned (click driver (Some e)))
                   (\<lambda>_. click_keys adb driver capabilities ks))" for el
  proof (cases el)
    case None
    show ?thesis
      unfolding None option.case
      by (intro plain_bnd pinUnlockWithKeyEvent_lookup_for plain_ret)
  next
    case (Some e)
    show ?thesis
      unfolding Some option.case
      by (intro plain_bnd plain_invoke Cons.IH [OF ks])
         (simp_all add: returned_def lookup_for_def)
  qed
  show ?case
    unfolding click_keys.simps
    by (intro plain_bnd plain_invoke find body) simp
qed

lemma branch_lookup_for:
  "sat (plain (lookup_for keys lvl))
     (if lvl \<ge> 21 then
        bnd (invoke (FindElOrEls ''id'' ''com.android.systemui:id/digit_text'' True) RetEls
               (findEls driver ''id'' ''com.android.systemui:id/digit_text'')) (\<lambda>els.
          if els = [] then pinUnlockWithKeyEvent adb driver capabilities
          else
            bnd (read_pins driver els Map.empty) (\<lambda>shown.
            bnd (click_pins driver shown keys) (\<lambda>_.
            waitForUnlock adb)))
      else
        bnd (click_keys adb driver capabilities keys) (\<lambda>returned_early.
          if returned_early then ret () else waitForUnlock adb))"
proof (cases "lvl \<ge> 21")
  case True
  have find: "lookup_for keys lvl (FindElOrEls ''id'' ''com.android.systemui:id/digit_text'' True, out)"
    for out
    using True by (simp add: lookup_for_def)
  have body: "sat (plain (lookup_for keys lvl))
      (if els = [] then pinUnlockWithKeyEvent adb driver capabilities
       else bnd (read_pins driver els Map.empty) (\<lambda>shown.
            bnd (click_pins driver shown keys) (\<lambda>_. waitForUnlock adb)))" for els
  proof (cases "els = []")
    case True
    then show ?thesis by (simp add: pinUnlockWithKeyEvent_lookup_for)
  next
    case False
    have "sat (plain (lookup_for keys lvl))
            (bnd (read_pins driver els Map.empty) (\<lambda>shown.
             bnd (click_pins driver shown keys) (\<lambda>_. waitForUnlock adb)))"
      by (intro plain_bnd read_pins_plain click_pins_plain
            waitForUnlock_plain [OF lookup_for_quiet])
         (simp_all add: lookup_for_def)
    with False show ?thesis by simp
  qed
  have "sat (plain (lookup_for keys lvl))
     (bnd (invoke (FindElOrEls ''id'' ''com.android.systemui:id/digit_text'' True) RetEls
               (findEls driver ''id'' ''com.android.systemui:id/digit_text'')) (\<lambda>els.
          if els = [] then pinUnlockWithKeyEvent adb driver capabilities
          else
            bnd (read_pins driver els Map.empty) (\<lambda>shown.
            bnd (click_pins driver shown keys) (\<lambda>_.
            waitForUnlock adb))))"
    by (intro plain_bnd plain_invoke find body) simp
  with True show ?thesis by simp
next
  case False
  then have lvl: "lvl < 21" by simp
  have w: "sat (plain (lookup_for keys lvl)) (waitForUnlock adb)"
    by (rule waitForUnlock_plain) (rule lookup_for_quiet)
  have tail: "sat (plain (lookup_for keys lvl))
                (if returned_early then ret () else waitForUnlock adb)" for returned_early
    using plain_ret [of "lookup_for keys lvl" "()"] w
    by (cases returned_early) simp_all
  have "sat (plain (lookup_for keys lvl))
     (bnd (click_keys adb driver capabilities keys) (\<lambda>returned_early.
          if returned_early then ret () else waitForUnlock adb))"
    by (intro plain_bnd click_keys_lookup_for lvl tail) simp
  with False show ?thesis by simp
qed

lemma pin_log_not_lookup: "\<not> is_lookup (fst (pin_log capabilities))"
  by (simp add: pin_log_def)

lemma pinUnlock_unfold:
  "pinUnlock adb driver capabilities s = (r, tr, s') \<longleftrightarrow>
     (\<exists>t. bnd (invoke DismissKeyguard returned (dismissKeyguard adb))
            (\<lambda>_. bnd (invoke GetApiLevel RetNum (getApiLevel adb)) (\<lambda>apiLevel.
        if apiLevel \<ge> 21 then
          bnd (invoke (FindElOrEls ''id'' ''com.android.systemui:id/digit_text'' True) RetEls
                 (findEls driver ''id'' ''com.android.systemui:id/digit_text'')) (\<lambda>els.
            if els = [] then pinUnlockWithKeyEvent adb driver capabilities
            else
              bnd (read_pins driver els Map.empty) (\<lambda>shown.
              bnd (click_pins driver shown (stringKeyToArr (unlockKey capabilities))) (\<lambda>_.
              waitForUnlock adb)))
        else
          bnd (click_keys adb driver capabilities (stringKeyToArr (unlockKey capabilities)))
            (\<lambda>returned_early. if returned_early then ret () else waitForUnlock adb))) s
          = (r, t, s')
        \<and> tr = pin_log capabilities # t)"
  unfolding pinUnlock_def Let_def bnd_effect pin_log_def ..

lemma pinUnlock_levels:
  assumes run: "pinUnlock adb driver capabilities s = (r, tr, s')"
  shows "(\<forall>ev\<in>set tr. \<not> is_lookup (fst ev))
       \<or> (\<exists>lvl tr'. tr = [pin_log capabilities, (DismissKeyguard, Returned),
                           (GetApiLevel, RetNum lvl)] @ tr'
             \<and> list_all (lookup_for (stringKeyToArr (unlockKey capabilities)) lvl) tr')"
proof -
  let ?keys = "stringKeyToArr (unlockKey capabilities)"
  let ?branch = "\<lambda>apiLevel.
        if apiLevel \<ge> 21 then
          bnd (invoke (FindElOrEls ''id'' ''com.android.systemui:id/digit_text'' True) RetEls
                 (findEls driver ''id'' ''com.android.systemui:id/digit_text'')) (\<lambda>els.
            if els = [] then pinUnlockWithKeyEvent adb driver capabilities
            else
              bnd (read_pins driver els Map.empty) (\<lambda>shown.
              bnd (click_pins driver shown ?keys) (\<lambda>_.
              waitForUnlock adb)))
        else
          bnd (click_keys adb driver capabilities ?keys) (\<lambda>returned_early.
            if returned_early then ret () else waitForUnlock adb)"
  from run [unfolded pinUnlock_unfold] obtain t where
    t: "bnd (invoke DismissKeyguard returned (dismissKeyguard adb))
          (\<lambda>_. bnd (invoke GetApiLevel RetNum (getApiLevel adb)) ?branch) s = (r, t, s')"
    and tr: "tr = pin_log capabilities # t"
    by (elim exE conjE)
  from t show ?thesis
  proof (cases rule: bnd_cases)
    case (stop e)
    from stop(1) have "t = [(DismissKeyguard, Raised e)]"
      by (cases rule: invoke_cases) simp_all
    with tr show ?thesis by (simp add: pin_log_not_lookup)
  next
    case (continue a tr1 s1 tr2)
    from continue(1) have tr1: "tr1 = [(DismissKeyguard, Returned)]"
      by (cases rule: invoke_cases) (simp_all add: returned_def)
    from continue(2) show ?thesis
    proof (cases rule: bnd_cases)
      case (stop e)
      from stop(1) have "tr2 = [(GetApiLevel, Raised e)]"
        by (cases rule: invoke_cases) simp_all
      with tr tr1 continue(3) show ?thesis by (simp add: pin_log_not_lookup)
    next
      case inner: (continue lvl tr3 s3 tr4)
      from inner(1) have tr3: "tr3 = [(GetApiLevel, RetNum lvl)]"
        by (cases rule: invoke_cases) simp_all
      have b: "sat (plain (lookup_for ?keys lvl)) (?branch lvl)"
        by (rule branch_lookup_for)
      have "plain (lookup_for ?keys lvl) (err_of r) tr4"
        using b inner(2) by (rule satD)
      then have "list_all (lookup_for ?keys lvl) tr4" by (simp add: plain_def)
      moreover have "tr = [pin_log capabilities, (DismissKeyguard, Returned),
                           (GetApiLevel, RetNum lvl)] @ tr4"
        using tr tr1 tr3 continue(3) inner(3) by simp
      ultimately show ?thesis by blast
    qed
  qed
qed

subsection \<open>The fallback policy\<close>



lemma direct_run_facts:
  assumes "plain (direct_event capabilities) c tr"
  shows "keycode_log capabilities \<notin> set tr" "\<not> list_ex lookup_absent tr"
    "length (filter (\<lambda>ev. ev = keycode_log capabilities) tr) = 0"
    "(Click el, Raised e) \<in> set tr \<Longrightarrow> c = Some e"
proof -
  from assms have fs: "fail_stop c tr" and ev: "list_all (direct_event capabilities) tr"
    by (simp_all add: plain_def)
  from ev show k: "keycode_log capabilities \<notin> set tr"
    by (auto simp: list_all_iff direct_event_def)
  from ev show "\<not> list_ex lookup_absent tr"
    by (auto simp: list_all_iff list_ex_iff direct_event_def)
  from k show "length (filter (\<lambda>ev. ev = keycode_log capabilities) tr) = 0"
    by (auto simp: filter_empty_conv)
  show "(Click el, Raised e) \<in> set tr \<Longrightarrow> c = Some e"
    using fs by (rule fail_stop_raised)
qed





lemma pinUnlock_example_missing_digit: "pinUnlock (adb_ok True 30) (driver_of [''1'', ''2'', ''3'']) (pin_caps ''142'') ()
    = (Inl (Error ''element is undefined''),
       [pin_log (pin_caps ''142''), (DismissKeyguard, Returned), (GetApiLevel, RetNum 30),
        (FindElOrEls ''id'' ''com.android.systemui:id/digit_text'' True, RetEls [''1'', ''2'', ''3'']),
        (GetAttribute ''text'' ''1'', RetStr ''1''),
        (GetAttribute ''text'' ''2'', RetStr ''2''),
        (GetAttribute ''text'' ''3'', RetStr ''3''),
        (Click (Some ''1''), Returned),
        (Click None, Raised (Error ''element is undefined''))], ())"
  by code_simp



subsection \<open>A digit that no keypad element shows\<close>

lemma read_pins_shown:
  assumes "read_pins driver els shown0 s = (Inr shown, tr, s')" "shown p = Some el"
  shows "shown0 p = Some el \<or> (GetAttribute ''text'' el, RetStr p) \<in> set tr"
  using assms
proof (induction els arbitrary: shown0 s tr)
  case Nil
  then show ?case by (simp add: ret_eq)
next
  case (Cons e els)
  from Cons.prems(1) have
    "bnd (invoke (GetAttribute ''text'' e) RetStr (getAttribute driver ''text'' e))
       (\<lambda>txt. read_pins driver els (shown0(txt \<mapsto> e))) s = (Inr shown, tr, s')"
    by simp
  then show ?case
  proof (cases rule: bnd_cases)
    case (stop err)
    then show ?thesis by simp
  next
    case (continue tx tr1 s1 tr2)
    from continue(1) have tr1: "tr1 = [(GetAttribute ''text'' e, RetStr tx)]"
      by (cases rule: invoke_cases) simp_all
    from Cons.IH [OF continue(2) Cons.prems(2)]
    have "(shown0(tx \<mapsto> e)) p = Some el \<or> (GetAttribute ''text'' el, RetStr p) \<in> set tr2" .
    then show ?thesis
    proof
      assume "(shown0(tx \<mapsto> e)) p = Some el"
      then have "shown0 p = Some el \<or> (tx = p \<and> e = el)"
        by (auto split: if_splits)
      with tr1 continue(3) show ?thesis by auto
    next
      assume "(GetAttribute ''text'' el, RetStr p) \<in> set tr2"
      with continue(3) show ?thesis by simp
    qed
  qed
qed

lemma click_pins_missing:
  assumes "click_pins driver shown ks s = (r, tr, s')" "p \<in> set ks" "shown p = None"
    and "\<forall>ev\<in>set tr. is_raised (snd ev) \<longrightarrow> fst ev = Click None"
  shows "Click None \<in> fst ` set tr"
  using assms(1,2,4)
proof (induction ks arbitrary: s tr)
  case Nil
  then show ?case by simp
next
  case (Cons k ks)
  from Cons.prems(1) have
    "bnd (invoke (Click (shown k)) returned (click driver (shown k)))
       (\<lambda>_. click_pins driver shown ks) s = (r, tr, s')"
    by simp
  then show ?case
  proof (cases rule: bnd_cases)
    case (stop e)
    from stop(1) have tr: "tr = [(Click (shown k), Raised e)]"
      by (cases rule: invoke_cases) simp_all
    with Cons.prems(3) have "Click (shown k) = Click None" by simp
    with tr show ?thesis by simp
  next
    case (continue a tr1 s1 tr2)
    from continue(1) have tr1: "tr1 = [(Click (shown k), returned a)]"
      by (cases rule: invoke_cases) simp_all
    show ?thesis
    proof (cases "k = p")
      case True
      with assms(3) tr1 continue(3) show ?thesis by simp
    next
      case False
      with Cons.prems(2) have "p \<in> set ks" by simp
      moreover from Cons.prems(3) continue(3)
      have "\<forall>ev\<in>set tr2. is_raised (snd ev) \<longrightarrow> fst ev = Click None" by simp
      ultimately have "Click None \<in> fst ` set tr2"
        using Cons.IH [OF continue(2)] by blast
      with continue(3) show ?thesis by auto
    qed
  qed
qed

lemma quiet_not_lookup: "quiet_call (fst ev) \<Longrightarrow> \<not> is_lookup (fst ev)"
  by (cases ev, cases "fst ev") auto

lemma keypad_clicks_no_lookup:
  "sat (plain (\<lambda>ev. \<not> is_lookup (fst ev)))
     (bnd (read_pins driver els Map.empty) (\<lambda>shown.
      bnd (click_pins driver shown ks) (\<lambda>_. waitForUnlock adb)))"
  by (intro plain_bnd read_pins_plain click_pins_plain waitForUnlock_plain [OF quiet_not_lookup])
     simp_all

lemma keypad_clicks_direct:
  "sat (plain (direct_event capabilities))
     (bnd (read_pins driver els Map.empty) (\<lambda>shown.
      bnd (click_pins driver shown ks) (\<lambda>_. waitForUnlock adb)))"
  by (intro plain_bnd read_pins_plain click_pins_plain waitForUnlock_plain
        direct_event_GetAttribute direct_event_Click direct_event_quiet)

lemma pinUnlockWithKeyEvent_no_lookup:
  "sat (plain (\<lambda>ev. \<not> is_lookup (fst ev))) (pinUnlockWithKeyEvent adb driver capabilities)"
  unfolding pinUnlockWithKeyEvent_def
  by (intro plain_bnd plain_effect plain_invoke send_keyevents_plain [OF quiet_not_lookup]
        waitForUnlock_plain [OF quiet_not_lookup])
     (simp_all add: returned_def)

lemma pinUnlock_keypad_path:
  assumes run: "pinUnlock adb driver capabilities s = (r, tr, s')"
    and found: "(FindElOrEls ''id'' ''com.android.systemui:id/digit_text'' True, RetEls els) \<in> set tr"
    and ne: "els \<noteq> []"
  shows "\<exists>lvl s1 t.
           tr = [pin_log capabilities, (DismissKeyguard, Returned), (GetApiLevel, RetNum lvl),
                 (FindElOrEls ''id'' ''com.android.systemui:id/digit_text'' True, RetEls els)] @ t
           \<and> bnd (read_pins driver els Map.empty) (\<lambda>shown.
               bnd (click_pins driver shown (stringKeyToArr (unlockKey capabilities))) (\<lambda>_.
               waitForUnlock adb)) s1 = (r, t, s')"
proof -
  let ?keys = "stringKeyToArr (unlockKey capabilities)"
  let ?find = "FindElOrEls ''id'' ''com.android.systemui:id/digit_text'' True"
  let ?clicks = "\<lambda>els. bnd (read_pins driver els Map.empty) (\<lambda>shown.
              bnd (click_pins driver shown ?keys) (\<lambda>_. waitForUnlock adb))"
  let ?keypad = "bnd (invoke ?find RetEls (findEls driver ''id'' ''com.android.systemui:id/digit_text''))
                   (\<lambda>els. if els = [] then pinUnlockWithKeyEvent adb driver capabilities
                           else ?clicks els)"
  let ?legacy = "bnd (click_keys adb driver capabilities ?keys) (\<lambda>returned_early.
            if returned_early then ret () else waitForUnlock adb)"
  let ?branch = "\<lambda>apiLevel. if apiLevel \<ge> 21 then ?keypad else ?legacy"
  have fl: "is_lookup (fst (?find, RetEls els))" by simp
  from pinUnlock_levels [OF run] found fl obtain lvl t4
    where tr: "tr = [pin_log capabilities, (DismissKeyguard, Returned),
                     (GetApiLevel, RetNum lvl)] @ t4"
      and all: "list_all (lookup_for ?keys lvl) t4"
    by blast
  have "(?find, RetEls els) \<noteq> pin_log capabilities"
    using pin_log_not_lookup [of capabilities] fl by metis
  with found tr have in4: "(?find, RetEls els) \<in> set t4" by simp
  with all have "lookup_for ?keys lvl (?find, RetEls els)" by (simp add: list_all_iff)
  then have lvl: "21 \<le> lvl" by (auto simp: lookup_for_def split: if_splits)
  from run [unfolded pinUnlock_unfold] obtain t where
    t: "bnd (invoke DismissKeyguard returned (dismissKeyguard adb))
          (\<lambda>_. bnd (invoke GetApiLevel RetNum (getApiLevel adb)) ?branch) s = (r, t, s')"
    and tr': "tr = pin_log capabilities # t"
    by (elim exE conjE)
  from tr tr' have t_eq: "t = [(DismissKeyguard, Returned), (GetApiLevel, RetNum lvl)] @ t4"
    by simp
  from t show ?thesis
  proof (cases rule: bnd_cases)
    case (stop e)
    from stop(1) have "t = [(DismissKeyguard, Raised e)]"
      by (cases rule: invoke_cases) simp_all
    with t_eq show ?thesis by simp
  next
    case (continue a tr1 s1 tr2)
    from continue(1) have tr1: "tr1 = [(DismissKeyguard, Returned)]"
      by (cases rule: invoke_cases) (simp_all add: returned_def)
    with t_eq continue(3) have tr2: "tr2 = (GetApiLevel, RetNum lvl) # t4" by simp
    from continue(2) show ?thesis
    proof (cases rule: bnd_cases)
      case (stop e)
      from stop(1) have "tr2 = [(GetApiLevel, Raised e)]"
        by (cases rule: invoke_cases) simp_all
      with tr2 show ?thesis by simp
    next
      case inner: (continue lvl' tr3 s3 tr4)
      from inner(1) have tr3: "tr3 = [(GetApiLevel, RetNum lvl')]"
        by (cases rule: invoke_cases) simp_all
      with tr2 inner(3) have same: "lvl' = lvl" "tr4 = t4" by simp_all
      with inner(2) lvl have "?keypad s3 = (r, t4, s')" by simp
      then show ?thesis
      proof (cases rule: bnd_cases)
        case (stop e)
        from stop(1) have "t4 = [(?find, Raised e)]"
          by (cases rule: invoke_cases) simp_all
        with in4 show ?thesis by simp
      next
        case keypad: (continue els' tr5 s5 tr6)
        from keypad(1) have tr5: "tr5 = [(?find, RetEls els')]"
          by (cases rule: invoke_cases) simp_all
        have no: "list_all (\<lambda>ev. \<not> is_lookup (fst ev)) tr6"
        proof (cases "els' = []")
          case True
          with keypad(2) have k: "pinUnlockWithKeyEvent adb driver capabilities s5 = (r, tr6, s')"
            by simp
          have "plain (\<lambda>ev. \<not> is_lookup (fst ev)) (err_of r) tr6"
            using pinUnlockWithKeyEvent_no_lookup k by (rule satD)
          then show ?thesis by (simp add: plain_def)
        next
          case False
          with keypad(2) have k: "?clicks els' s5 = (r, tr6, s')" by simp
          have "plain (\<lambda>ev. \<not> is_lookup (fst ev)) (err_of r) tr6"
            using keypad_clicks_no_lookup k by (rule satD)
          then show ?thesis by (simp add: plain_def)
        qed
        then have "(?find, RetEls els) \<notin> set tr6"
          unfolding list_all_iff using fl by blast
        with in4 keypad(3) tr5 have "els' = els" by simp
        with keypad(2) ne have "?clicks els s5 = (r, tr6, s')" by simp
        moreover have "tr = [pin_log capabilities, (DismissKeyguard, Returned),
                             (GetApiLevel, RetNum lvl), (?find, RetEls els)] @ tr6"
          using tr keypad(3) tr5 \<open>els' = els\<close> by simp
        ultimately show ?thesis by blast
      qed
    qed
  qed
qed

lemma fail_stop_last:
  assumes "fail_stop (Some e) tr"
  shows "last tr \<in> set tr" "snd (last tr) = Raised e"
  using assms by (simp_all add: fail_stop_def)

text \<open>
  C9. On the keypad branch (the lookup returned a non-empty array), when a requested
  digit is the text of no returned element and no call other than a click of
  \<open>undefined\<close> raises, \<open>click\<close> is called with \<open>undefined\<close>; \<open>pinUnlock\<close> does not
  fall back to the keycode procedure, and it either returns or raises the error that
  this click raised: it raises no error of its own for the missing digit.
\<close>

theorem pinUnlock_missing_digit:
  assumes run: "pinUnlock adb driver capabilities s = (r, tr, s')"
    and found: "(FindElOrEls ''id'' ''com.android.systemui:id/digit_text'' True, RetEls els) \<in> set tr"
    and ne: "els \<noteq> []"
    and pin: "pin \<in> set (stringKeyToArr (unlockKey capabilities))"
    and missing: "\<forall>el. (GetAttribute ''text'' el, RetStr pin) \<notin> set tr"
    and reached: "\<forall>ev\<in>set tr. is_raised (snd ev) \<longrightarrow> fst ev = Click None"
  shows "Click None \<in> fst ` set tr
       \<and> keycode_log capabilities \<notin> set tr
       \<and> (r = Inr () \<or> (\<exists>e. r = Inl e \<and> (Click None, Raised e) \<in> set tr))"
proof -
  let ?keys = "stringKeyToArr (unlockKey capabilities)"
  let ?find = "FindElOrEls ''id'' ''com.android.systemui:id/digit_text'' True"
  let ?clicks = "bnd (read_pins driver els Map.empty) (\<lambda>shown.
              bnd (click_pins driver shown ?keys) (\<lambda>_. waitForUnlock adb))"
  from pinUnlock_keypad_path [OF run found ne] obtain lvl s1 t
    where tr: "tr = [pin_log capabilities, (DismissKeyguard, Returned), (GetApiLevel, RetNum lvl),
                     (?find, RetEls els)] @ t"
      and k: "?clicks s1 = (r, t, s')"
    by blast
  from tr have sub: "set t \<subseteq> set tr" by auto
  have direct: "plain (direct_event capabilities) (err_of r) t"
    using keypad_clicks_direct k by (rule satD)
  \<comment> \<open>no fallback\<close>
  from direct_run_facts(1) [OF direct] have "keycode_log capabilities \<notin> set t" .
  moreover have "keycode_log capabilities \<noteq> pin_log capabilities"
    using pin_log_neq_keycode_log [of capabilities] by simp
  moreover have "keycode_log capabilities \<noteq> (DismissKeyguard, Returned)"
    "keycode_log capabilities \<noteq> (GetApiLevel, RetNum lvl)"
    "keycode_log capabilities \<noteq> (?find, RetEls els)"
    by (simp_all add: keycode_log_def)
  ultimately have c2: "keycode_log capabilities \<notin> set tr" by (simp add: tr)
  \<comment> \<open>the completion\<close>
  have c3: "r = Inr () \<or> (\<exists>e. r = Inl e \<and> (Click None, Raised e) \<in> set tr)"
  proof (cases r)
    case (Inr u)
    then show ?thesis by simp
  next
    case (Inl e)
    with direct have fs: "fail_stop (Some e) t" by (simp add: plain_def)
    from fail_stop_last [OF fs] sub have l: "last t \<in> set tr" "snd (last t) = Raised e"
      by auto
    with reached have "fst (last t) = Click None" by auto
    with l have "(Click None, Raised e) \<in> set tr"
      by (metis prod.collapse)
    with Inl show ?thesis by simp
  qed
  \<comment> \<open>the click of \<open>undefined\<close>\<close>
  from k have c1: "Click None \<in> fst ` set tr"
  proof (cases rule: bnd_cases)
    case (stop e)
    have "sat (plain (\<lambda>ev. fst ev \<noteq> Click None)) (read_pins driver els Map.empty)"
      by (rule read_pins_plain) simp
    from this stop(1) have p: "plain (\<lambda>ev. fst ev \<noteq> Click None) (Some e) t"
      by (rule satD [where r = "Inl e", simplified])
    then have fs: "fail_stop (Some e) t" and ev: "list_all (\<lambda>ev. fst ev \<noteq> Click None) t"
      by (simp_all add: plain_def)
    from fail_stop_last [OF fs] have l: "last t \<in> set t" "snd (last t) = Raised e" .
    with ev have "fst (last t) \<noteq> Click None" by (simp add: list_all_iff)
    moreover from l sub reached have "fst (last t) = Click None" by auto
    ultimately show ?thesis by simp
  next
    case (continue shown tr1 s2 tr2)
    have none: "shown pin = None"
    proof (cases "shown pin")
      case None
      then show ?thesis .
    next
      case (Some el)
      from read_pins_shown [OF continue(1) Some]
      have "(GetAttribute ''text'' el, RetStr pin) \<in> set tr1" by simp
      with continue(3) sub have "(GetAttribute ''text'' el, RetStr pin) \<in> set tr" by auto
      with missing show ?thesis by blast
    qed
    from continue(3) sub have sub2: "set tr2 \<subseteq> set tr" by auto
    from continue(2) show ?thesis
    proof (cases rule: bnd_cases)
      case (stop e)
      from reached sub2
      have "\<forall>ev\<in>set tr2. is_raised (snd ev) \<longrightarrow> fst ev = Click None" by blast
      from click_pins_missing [OF stop(1) pin none this] sub2
      show ?thesis by blast
    next
      case inner: (continue a tr3 s3 tr4)
      from inner(3) sub2 have sub3: "set tr3 \<subseteq> set tr" by auto
      with reached
      have "\<forall>ev\<in>set tr3. is_raised (snd ev) \<longrightarrow> fst ev = Click None" by blast
      from click_pins_missing [OF inner(1) pin none this] sub3
      show ?thesis by blast
    qed
  qed
  from c1 c2 c3 show ?thesis by (intro conjI)
qed

text \<open>The keypad shows 1, 2 and 3; the PIN is 142.\<close>

theorem pinUnlock_missing_digit_witness:
  "\<exists>tr. pinUnlock (adb_ok True 30) (driver_of [''1'', ''2'', ''3'']) (pin_caps ''142'') ()
           = (Inl (Error ''element is undefined''), tr, ())
       \<and> (FindElOrEls ''id'' ''com.android.systemui:id/digit_text'' True,
           RetEls [''1'', ''2'', ''3'']) \<in> set tr
       \<and> ''4'' \<in> set (stringKeyToArr (unlockKey (pin_caps ''142'')))
       \<and> list_all (\<lambda>ev. snd ev \<noteq> RetStr ''4'') tr
       \<and> Click None \<in> fst ` set tr
       \<and> keycode_log (pin_caps ''142'') \<notin> set tr
       \<and> (Click None, Raised (Error ''element is undefined'')) \<in> set tr"
proof -
  let ?tr = "[pin_log (pin_caps ''142''), (DismissKeyguard, Returned), (GetApiLevel, RetNum 30),
        (FindElOrEls ''id'' ''com.android.systemui:id/digit_text'' True, RetEls [''1'', ''2'', ''3'']),
        (GetAttribute ''text'' ''1'', RetStr ''1''),
        (GetAttribute ''text'' ''2'', RetStr ''2''),
        (GetAttribute ''text'' ''3'', RetStr ''3''),
        (Click (Some ''1''), Returned),
        (Click None, Raised (Error ''element is undefined''))]"
  have found: "(FindElOrEls ''id'' ''com.android.systemui:id/digit_text'' True,
                RetEls [''1'', ''2'', ''3'']) \<in> set ?tr"
    by simp
  have ne: "[''1'', ''2'', ''3''] \<noteq> ([] :: string list)" by simp
  have pin: "''4'' \<in> set (stringKeyToArr (unlockKey (pin_caps ''142'')))"
    by (simp add: stringKeyToArr_def pin_caps_def js_trim_def is_ws_def)
  have texts: "list_all (\<lambda>ev. snd ev \<noteq> RetStr ''4'') ?tr"
    by (simp add: pin_log_def)
  have missing: "\<forall>el. (GetAttribute ''text'' el, RetStr ''4'') \<notin> set ?tr"
    by (simp add: pin_log_def)
  have reached: "\<forall>ev\<in>set ?tr. is_raised (snd ev) \<longrightarrow> fst ev = Click None"
    by (simp add: pin_log_def)
  note inst =
    pinUnlock_missing_digit [OF pinUnlock_example_missing_digit found ne pin missing reached]
  have c: "Click None \<in> fst ` set ?tr"
    using inst by (rule conjunct1)
  have d: "keycode_log (pin_caps ''142'') \<notin> set ?tr"
    using inst [THEN conjunct2] by (rule conjunct1)
  have e: "(Click None, Raised (Error ''element is undefined'')) \<in> set ?tr" by simp
  from pinUnlock_example_missing_digit found pin texts c d e
  show ?thesis by (intro exI conjI)
qed

end
